theory Spec2Isabelle
  imports
    Main
    "HOL-Library.AList"
    "HOL-Library.Multiset"
    "HOL-Library.Product_Lexorder"
    "HOL-Library.List_Lexorder"
    "HOL-Library.Char_ord"
    "HOL-Library.Option_ord"
begin

section \<open>Memorice: the game, the search states and the A* planner of \<open>memorice.py\<close>\<close>

text \<open>
  Conventions of the embedding.
  \<^item> A position \<open>(row, column)\<close> is a pair of naturals; a card value is a Python \<open>int\<close>.
  \<^item> A Python \<open>dict\<close> is an association list in insertion order with distinct keys:
    \<open>d[k] = v\<close> is \<^const>\<open>AList.update\<close> (an existing key keeps its place, a new one goes
    to the end), \<open>del d[k]\<close> is \<^const>\<open>AList.delete\<close>, \<open>d.items()\<close> is the list itself.
  \<^item> A Python \<open>set\<close> is a HOL set; \<open>sorted(s)\<close> of a set is \<^const>\<open>sorted_list_of_set\<close>,
    \<open>sorted(xs)\<close> of a sequence is \<^const>\<open>sort\<close>. Tuples compare lexicographically, a proper
    prefix being smaller, which is the order of \<open>Product_Lexorder\<close> and \<open>List_Lexorder\<close>.
  \<^item> \<open>board[r][c]\<close> raises \<open>IndexError\<close> out of range. Functions that read the board
    return an \<open>option\<close>, \<open>None\<close> being that exception.
\<close>

type_synonym pos = "nat \<times> nat"

type_synonym ('k, 'v) dict = "('k \<times> 'v) list"

subsection \<open>class MemoriceGame\<close>

record game =
  gsize :: nat
  total_pairs :: int
  board :: "int list list"
  matched :: "pos set"
  moves :: nat
  seen :: "(pos, int) dict"

definition value_at :: "game \<Rightarrow> pos \<Rightarrow> int option" where
  "value_at g p =
     (case p of (r, c) \<Rightarrow>
        if r < length (board g) then
          (if c < length (board g ! r) then Some (board g ! r ! c) else None)
        else None)"

definition all_positions :: "game \<Rightarrow> pos list" where
  "all_positions g = concat (map (\<lambda>r. map (\<lambda>c. (r, c)) [0..<gsize g]) [0..<gsize g])"

definition is_matched :: "game \<Rightarrow> pos \<Rightarrow> bool" where
  "is_matched g p \<longleftrightarrow> p \<in> matched g"

definition unmatched_positions :: "game \<Rightarrow> pos list" where
  "unmatched_positions g = filter (\<lambda>p. p \<notin> matched g) (all_positions g)"

text \<open>\<open>mp[val].append(pos)\<close> on a \<open>defaultdict(list)\<close>.\<close>

definition append_at :: "('k, 'a list) dict \<Rightarrow> 'k \<Rightarrow> 'a \<Rightarrow> ('k, 'a list) dict" where
  "append_at mp k x =
     (case map_of mp k of None \<Rightarrow> mp @ [(k, [x])] | Some l \<Rightarrow> AList.update k (l @ [x]) mp)"

definition seen_pairs :: "game \<Rightarrow> (int, pos list) dict" where
  "seen_pairs g =
     fold (\<lambda>(p, val) mp. if p \<notin> matched g then append_at mp val p else mp) (seen g) []"

definition apply_turn :: "game \<Rightarrow> pos \<Rightarrow> pos \<Rightarrow> (game \<times> bool) option" where
  "apply_turn g pos1 pos2 =
     (case value_at g pos1 of
        None \<Rightarrow> None
      | Some v1 \<Rightarrow>
          (case value_at g pos2 of
             None \<Rightarrow> None
           | Some v2 \<Rightarrow>
               (let s1 = (if pos1 \<notin> matched g then AList.update pos1 v1 (seen g) else seen g);
                    s2 = (if pos2 \<notin> matched g then AList.update pos2 v2 s1 else s1);
                    g1 = g\<lparr>moves := moves g + 1, seen := s2\<rparr>
                in if v1 = v2 \<and> pos1 \<noteq> pos2 then
                     Some (g1\<lparr>matched := insert pos2 (insert pos1 (matched g)),
                              seen := AList.delete pos2 (AList.delete pos1 s2)\<rparr>, True)
                   else Some (g1, False))))"

definition is_finished :: "game \<Rightarrow> bool" where
  "is_finished g \<longleftrightarrow> int (card (matched g)) div 2 = total_pairs g"

subsection \<open>Search states and actions\<close>

text \<open>
  A search state is the pair \<open>(matched, seen)\<close>: a tuple of positions and the remembered
  cards as a sequence of \<open>(value, positions)\<close> items. Where the source accepts \<open>seen\<close> as a
  \<open>dict\<close> it only iterates over \<open>seen.items()\<close>, so a dict is given by its items in
  insertion order. An action is the tuple \<open>(kind, (p1, p2))\<close> with kind \<open>"match"\<close> or
  \<open>"turn"\<close>.
\<close>

type_synonym state = "pos list \<times> (int \<times> pos list) list"

type_synonym action = "string \<times> (pos \<times> pos)"

type_synonym transition = "action \<times> state \<times> int"

definition state_to_key :: "state \<Rightarrow> state" where
  "state_to_key st =
     (case st of (matched_t, seen_t) \<Rightarrow>
        (sort matched_t, sort (map (\<lambda>(val, pos_list). (val, sort pos_list)) seen_t)))"

definition heuristic_state :: "state \<Rightarrow> int \<Rightarrow> int" where
  "heuristic_state st tp =
     (case st of (matched_t, seen_t) \<Rightarrow> tp - int (length matched_t) div 2)"

subsection \<open>successors\_state\<close>

definition K :: nat where
  "K = 6"

text \<open>\<open>{val: list(poses)[:] for val, poses in seen}\<close>: a later item with the same value
  replaces the earlier one.\<close>

definition dict_of_items :: "('k \<times> 'v) list \<Rightarrow> ('k, 'v) dict" where
  "dict_of_items xs = fold (\<lambda>(k, v) d. AList.update k v d) xs []"

text \<open>\<open>(tuple(sorted(new_matched)), tuple(sorted((k, tuple(sorted(v))) for k, v in new_seen.items())))\<close>\<close>

definition freeze :: "pos set \<Rightarrow> (int, pos list) dict \<Rightarrow> state" where
  "freeze new_matched new_seen =
     (sorted_list_of_set new_matched, sort (map (\<lambda>(k, v). (k, sort v)) new_seen))"

text \<open>The body of the first loop, for one item \<open>(val, poses)\<close> of \<open>seen_map\<close>; \<open>None\<close> when the
  item yields no action.\<close>

definition match_succ ::
  "pos set \<Rightarrow> (int, pos list) dict \<Rightarrow> int \<times> pos list \<Rightarrow> transition option" where
  "match_succ matched_set seen_map item =
     (case item of (val, poses) \<Rightarrow>
        if length poses \<ge> 2 then
          (let available = filter (\<lambda>p. p \<notin> matched_set) poses in
           if length available \<ge> 2 then
             (let p1 = available ! 0; p2 = available ! 1;
                  new_matched = insert p2 (insert p1 matched_set);
                  new_seen = map (\<lambda>(k, v). (k, filter (\<lambda>x. x \<notin> {p1, p2}) v)) seen_map;
                  new_seen = filter (\<lambda>(k, v). v \<noteq> []) new_seen
              in Some ((''match'', (p1, p2)), freeze new_matched new_seen, 1))
           else None)
        else None)"

text \<open>
  \<open>new_seen.setdefault(v, []); if p not in new_seen[v]: new_seen[v].append(p)\<close>.
  The lists of \<open>new_seen\<close> are fresh copies, so the append changes no other dict.
\<close>

definition remember :: "(int, pos list) dict \<Rightarrow> int \<Rightarrow> pos \<Rightarrow> (int, pos list) dict" where
  "remember d v p =
     (case map_of d v of
        None \<Rightarrow> d @ [(v, [p])]
      | Some l \<Rightarrow> if p \<notin> set l then AList.update v (l @ [p]) d else d)"

text \<open>
  \<open>new_seen[v] = [x for x in new_seen[v] if x not in {c, d}]; if not new_seen[v]: del new_seen[v]\<close>.
  It runs after \<open>remember\<close> has stored under \<open>v\<close>, so the key is present.
\<close>

definition forget_pair :: "(int, pos list) dict \<Rightarrow> int \<Rightarrow> pos \<Rightarrow> pos \<Rightarrow> (int, pos list) dict" where
  "forget_pair d v c e =
     (case map_of d v of
        None \<Rightarrow> d
      | Some l \<Rightarrow>
          (let l' = filter (\<lambda>x. x \<notin> {c, e}) l
           in if l' = [] then AList.delete v d else AList.update v l' d))"

text \<open>The body of both inner loops of the exploration phase (the two bodies are the same
  statements): reveal \<open>c\<close> and \<open>d\<close>, and move them to the matched set if their values agree.\<close>

definition turn_succ ::
  "game \<Rightarrow> pos set \<Rightarrow> (int, pos list) dict \<Rightarrow> pos \<Rightarrow> pos \<Rightarrow> transition option" where
  "turn_succ g matched_set seen_map c d =
     (case value_at g c of
        None \<Rightarrow> None
      | Some v_c \<Rightarrow>
          (case value_at g d of
             None \<Rightarrow> None
           | Some v_d \<Rightarrow>
               (let new_seen = remember (remember seen_map v_c c) v_d d
                in if v_c = v_d \<and> c \<noteq> d then
                     Some ((''turn'', (c, d)),
                           freeze (insert d (insert c matched_set)) (forget_pair new_seen v_c c d), 1)
                   else Some ((''turn'', (c, d)), freeze matched_set new_seen, 1))))"

definition unmatched_of :: "game \<Rightarrow> pos set \<Rightarrow> pos list" where
  "unmatched_of g matched_set = filter (\<lambda>p. p \<notin> matched_set) (all_positions g)"

definition unseen_of :: "game \<Rightarrow> pos set \<Rightarrow> (int, pos list) dict \<Rightarrow> pos list" where
  "unseen_of g matched_set seen_map =
     (let unmatched = unmatched_of g matched_set;
          unseen = filter (\<lambda>p. p \<notin> set (map fst (seen g))
                              \<and> p \<notin> set (concat (map snd seen_map))) unmatched
      in if unseen = [] then unmatched else unseen)"

definition seen_positions_of :: "pos set \<Rightarrow> (int, pos list) dict \<Rightarrow> pos list" where
  "seen_positions_of matched_set seen_map =
     filter (\<lambda>p. p \<notin> matched_set) (concat (map snd seen_map))"

text \<open>The positions the second inner loop pairs a candidate with: \<open>others[:K]\<close>.\<close>

definition others_of :: "game \<Rightarrow> pos set \<Rightarrow> pos \<Rightarrow> pos list" where
  "others_of g matched_set c =
     take K (take K (filter (\<lambda>p. p \<noteq> c) (unmatched_of g matched_set)))"

definition memory_turns ::
  "game \<Rightarrow> pos set \<Rightarrow> (int, pos list) dict \<Rightarrow> pos \<Rightarrow> transition option list" where
  "memory_turns g matched_set seen_map c =
     map (turn_succ g matched_set seen_map c)
       (filter (\<lambda>d. d \<noteq> c) (seen_positions_of matched_set seen_map))"

definition blind_turns ::
  "game \<Rightarrow> pos set \<Rightarrow> (int, pos list) dict \<Rightarrow> pos \<Rightarrow> transition option list" where
  "blind_turns g matched_set seen_map c =
     map (turn_succ g matched_set seen_map c) (others_of g matched_set c)"

definition explore :: "game \<Rightarrow> pos set \<Rightarrow> (int, pos list) dict \<Rightarrow> transition option list" where
  "explore g matched_set seen_map =
     concat (map (\<lambda>c. memory_turns g matched_set seen_map c @ blind_turns g matched_set seen_map c)
               (take K (unseen_of g matched_set seen_map)))"

definition successors_state :: "state \<Rightarrow> game \<Rightarrow> transition list option" where
  "successors_state st g =
     (case st of (matched_t, seen_t) \<Rightarrow>
        let matched_set = set matched_t;
            seen_map = dict_of_items seen_t;
            actions = List.map_filter (match_succ matched_set seen_map) seen_map
        in if actions \<noteq> [] then Some actions
           else those (explore g matched_set seen_map))"

subsection \<open>The planner: astar\_plan\<close>

text \<open>
  A \<open>Node\<close> is the named tuple \<open>(f, g, state, parent, action)\<close>, compared as a tuple. The
  source only ever builds \<open>parent = action = None\<close> (the start node) or both set, so the
  last two fields are one optional pair; with \<open>None\<close> below \<open>Some\<close> the order is the
  tuple order wherever Python defines it. The same holds for the values of \<open>came_from\<close>.
\<close>

type_synonym node = "int \<times> int \<times> state \<times> (state \<times> action) option"

definition node_f :: "node \<Rightarrow> int" where
  "node_f n = fst n"

definition node_g :: "node \<Rightarrow> int" where
  "node_g n = fst (snd n)"

definition node_state :: "node \<Rightarrow> state" where
  "node_state n = fst (snd (snd n))"

text \<open>
  \<open>heapq\<close> keeps the frontier as a binary heap; \<open>heappop\<close> removes and returns a least element
  under the tuple order and raises \<open>IndexError\<close> on an empty heap. The model keeps the same
  elements as a list in insertion order and takes the least one out.
\<close>

definition heappush :: "node list \<Rightarrow> node \<Rightarrow> node list" where
  "heappush heap item = heap @ [item]"

definition heappop :: "node list \<Rightarrow> (node \<times> node list) option" where
  "heappop heap =
     (if heap = [] then None else Some (min_list heap, remove1 (min_list heap) heap))"

datatype py_error = IndexError | KeyError

datatype 'a outcome = Returns 'a | Raises py_error | Diverges

record astar_vars =
  frontier :: "node list"
  came_from :: "state \<rightharpoonup> (state \<times> action) option"
  gscore :: "state \<rightharpoonup> int"

text \<open>The \<open>while True\<close> loop that walks \<open>came_from\<close> back to the start; \<open>None\<close> is a walk
  that never ends, \<open>Inl KeyError\<close> a key that \<open>came_from\<close> does not hold.\<close>

partial_function (option) reconstruct ::
  "(state \<rightharpoonup> (state \<times> action) option) \<Rightarrow> state \<Rightarrow> action list
     \<Rightarrow> (py_error + action list) option" where
  [code]: "reconstruct cf cur_key path =
     (case cf cur_key of
        None \<Rightarrow> Some (Inl KeyError)
      | Some None \<Rightarrow> Some (Inr path)
      | Some (Some (parent_key, action)) \<Rightarrow> reconstruct cf parent_key (path @ [action]))"

text \<open>The body of \<open>for (action, new_state, cost) in succs\<close>.\<close>

definition relax :: "state \<Rightarrow> int \<Rightarrow> int \<Rightarrow> transition \<Rightarrow> astar_vars \<Rightarrow> astar_vars" where
  "relax key g tp tr vs =
     (case tr of (action, new_state, cost) \<Rightarrow>
        let new_key = state_to_key new_state;
            tentative_g = g + cost
        in if (case gscore vs new_key of None \<Rightarrow> True | Some old \<Rightarrow> tentative_g < old) then
             (let h = heuristic_state new_state tp;
                  f = tentative_g + h
              in vs\<lparr>gscore := (gscore vs)(new_key \<mapsto> tentative_g),
                     frontier := heappush (frontier vs) (f, tentative_g, new_state, Some (key, action)),
                     came_from := (came_from vs)(new_key \<mapsto> Some (key, action))\<rparr>)
           else vs)"

datatype step = Done "action list option outcome" | Next "astar_vars \<times> int"

text \<open>One pass through \<open>while frontier:\<close>, from the loop test to the end of the body. The
  second component of the loop state is \<open>expansions\<close>.\<close>

definition astar_step :: "game \<Rightarrow> int \<Rightarrow> astar_vars \<times> int \<Rightarrow> step" where
  "astar_step g max_expansions x =
     (case x of (vs, expansions) \<Rightarrow>
        if frontier vs = [] then Done (Returns None)
        else
          (case heappop (frontier vs) of
             None \<Rightarrow> Done (Raises IndexError)
           | Some (node, rest) \<Rightarrow>
               let st = node_state node;
                   key = state_to_key st;
                   g_node = node_g node
               in if int (length (fst st)) div 2 = total_pairs g then
                    (case reconstruct (came_from vs) key [] of
                       None \<Rightarrow> Done Diverges
                     | Some (Inl e) \<Rightarrow> Done (Raises e)
                     | Some (Inr path) \<Rightarrow> Done (Returns (Some (rev path))))
                  else if expansions + 1 > max_expansions then Done (Returns None)
                  else
                    (case successors_state st g of
                       None \<Rightarrow> Done (Raises IndexError)
                     | Some succs \<Rightarrow>
                         Next (fold (relax key g_node (total_pairs g)) succs (vs\<lparr>frontier := rest\<rparr>),
                               expansions + 1))))"

function astar_loop :: "game \<Rightarrow> int \<Rightarrow> astar_vars \<times> int \<Rightarrow> action list option outcome" where
  "astar_loop g max_expansions x =
     (case astar_step g max_expansions x of
        Done r \<Rightarrow> r
      | Next y \<Rightarrow> astar_loop g max_expansions y)"
  by pat_completeness auto
termination
proof (relation "measure (\<lambda>(g, max_expansions, vs, expansions). nat (max_expansions - expansions))")
  show "wf (measure (\<lambda>(g, max_expansions, vs, expansions). nat (max_expansions - expansions)))"
    by simp
next
  fix g :: game and max_expansions :: int and x y :: "astar_vars \<times> int"
  assume "astar_step g max_expansions x = Next y"
  then have "snd y = snd x + 1 \<and> snd x + 1 \<le> max_expansions"
    by (auto simp: astar_step_def Let_def
        split: prod.splits if_splits option.splits sum.splits)
  then show "((g, max_expansions, y), (g, max_expansions, x))
      \<in> measure (\<lambda>(g, max_expansions, vs, expansions). nat (max_expansions - expansions))"
    by (cases x, cases y) auto
qed

definition astar_init :: "state \<Rightarrow> game \<Rightarrow> astar_vars" where
  "astar_init initial_state g =
     (let start_key = state_to_key initial_state;
          start_h = heuristic_state initial_state (total_pairs g)
      in \<lparr>frontier = heappush [] (start_h, 0, initial_state, None),
          came_from = [start_key \<mapsto> None],
          gscore = [start_key \<mapsto> 0]\<rparr>)"

definition astar_plan :: "state \<Rightarrow> game \<Rightarrow> int \<Rightarrow> action list option outcome" where
  "astar_plan initial_state g max_expansions =
     astar_loop g max_expansions (astar_init initial_state g, 0)"

text \<open>The first \<open>n\<close> passes of the loop: the loop state after them, or the result if the
  loop has exited.\<close>

fun astar_run :: "game \<Rightarrow> int \<Rightarrow> nat \<Rightarrow> astar_vars \<times> int \<Rightarrow> step" where
  "astar_run g max_expansions 0 x = Next x"
| "astar_run g max_expansions (Suc n) x =
     (case astar_step g max_expansions x of
        Done r \<Rightarrow> Done r
      | Next y \<Rightarrow> astar_run g max_expansions n y)"

text \<open>The frontier at the start of pass \<open>n + 1\<close> of the loop (empty if the loop has exited).\<close>

definition frontier_after :: "game \<Rightarrow> int \<Rightarrow> nat \<Rightarrow> state \<Rightarrow> node list" where
  "frontier_after g max_expansions n initial_state =
     (case astar_run g max_expansions n (astar_init initial_state g, 0) of
        Done r \<Rightarrow> []
      | Next x \<Rightarrow> frontier (fst x))"

subsection \<open>greedy\_policy\<close>

text \<open>\<open>random.choice(xs)\<close> with the random draw \<open>r\<close> made explicit; it raises \<open>IndexError\<close> on
  an empty sequence.\<close>

definition random_choice :: "nat \<Rightarrow> 'a list \<Rightarrow> 'a option" where
  "random_choice r xs = (if xs = [] then None else Some (xs ! (r mod length xs)))"

definition greedy_policy :: "game \<Rightarrow> nat \<Rightarrow> nat \<Rightarrow> action option" where
  "greedy_policy g r1 r2 =
     (case find (\<lambda>(val, poses). length poses \<ge> 2) (seen_pairs g) of
        Some (val, poses) \<Rightarrow> Some (''turn'', (poses ! 0, poses ! 1))
      | None \<Rightarrow>
          let unmatched = filter (\<lambda>p. \<not> is_matched g p) (all_positions g);
              unseen = filter (\<lambda>p. p \<notin> set (map fst (seen g))) unmatched;
              unseen = (if unseen = [] then unmatched else unseen)
          in (case random_choice r1 unseen of
                None \<Rightarrow> None
              | Some p1 \<Rightarrow>
                  (case value_at g p1 of
                     None \<Rightarrow> None
                   | Some v1 \<Rightarrow>
                       (case find (\<lambda>(p, val). val = v1 \<and> p \<noteq> p1 \<and> p \<notin> matched g) (seen g) of
                          Some (p, val) \<Rightarrow> Some (''turn'', (p1, p))
                        | None \<Rightarrow>
                            (let remaining = filter (\<lambda>p. p \<noteq> p1) unmatched
                             in if remaining = [] then Some (''turn'', (p1, p1))
                                else (case random_choice r2 remaining of
                                        None \<Rightarrow> None
                                      | Some p2 \<Rightarrow> Some (''turn'', (p1, p2))))))))"

subsection \<open>The plan executor of main\<close>

text \<open>The initial search state \<open>main\<close> builds from the live game before it calls the planner.\<close>

definition snapshot :: "game \<Rightarrow> state" where
  "snapshot g =
     (sorted_list_of_set (matched g), sort (map (\<lambda>(v, ps). (v, sort ps)) (seen_pairs g)))"

text \<open>\<open>main\<close> pops the planned actions one at a time and applies each with \<open>apply_turn\<close>.\<close>

fun replay :: "game \<Rightarrow> action list \<Rightarrow> game option" where
  "replay g [] = Some g"
| "replay g (a # as) =
     (case a of (act_type, (p1, p2)) \<Rightarrow>
        (case apply_turn g p1 p2 of
           None \<Rightarrow> None
         | Some (g', was_match) \<Rightarrow> replay g' as))"

subsection \<open>Well-formed games and states\<close>

text \<open>What the data model says of a live game: the board is a \<open>size \<times> size\<close> grid,
  \<open>total_pairs\<close> is \<open>size\<^sup>2 // 2\<close> as the constructor sets it, every position in \<open>matched\<close> and
  \<open>seen\<close> is a position of the board, and \<open>seen\<close> is a dict (its keys are distinct).\<close>

definition wf_game :: "game \<Rightarrow> bool" where
  "wf_game g \<longleftrightarrow>
     length (board g) = gsize g \<and>
     list_all (\<lambda>row. length row = gsize g) (board g) \<and>
     total_pairs g = int (gsize g * gsize g) div 2 \<and>
     matched g \<subseteq> set (all_positions g) \<and>
     list_all (\<lambda>p. p \<in> set (all_positions g)) (map fst (seen g)) \<and>
     distinct (map fst (seen g))"

text \<open>The memory of the live game holds the true value of each remembered card.\<close>

definition seen_true :: "game \<Rightarrow> bool" where
  "seen_true g \<longleftrightarrow> list_all (\<lambda>(p, v). value_at g p = Some v) (seen g)"

text \<open>The two invariants of a search state, on the remembered items against a matched set:
  no remembered position is matched, and every position list is non-empty and free of
  duplicates.\<close>

definition wf_map :: "pos set \<Rightarrow> (int, pos list) dict \<Rightarrow> bool" where
  "wf_map ms d \<longleftrightarrow>
     list_all (\<lambda>(v, ps). ps \<noteq> [] \<and> distinct ps \<and> list_all (\<lambda>p. p \<notin> ms) ps) d"

definition wf_state :: "state \<Rightarrow> bool" where
  "wf_state st \<longleftrightarrow> (case st of (matched_t, seen_t) \<Rightarrow> wf_map (set matched_t) seen_t)"

text \<open>Every remembered position is listed under the value the board has there.\<close>

definition true_map :: "game \<Rightarrow> (int, pos list) dict \<Rightarrow> bool" where
  "true_map g d \<longleftrightarrow> list_all (\<lambda>(v, ps). list_all (\<lambda>p. value_at g p = Some v) ps) d"

definition memory_true :: "game \<Rightarrow> state \<Rightarrow> bool" where
  "memory_true g st \<longleftrightarrow> true_map g (snd st)"

text \<open>\<open>succ_path g s n s'\<close>: \<open>n\<close> generated transitions lead from \<open>s\<close> to \<open>s'\<close>.\<close>

inductive succ_path :: "game \<Rightarrow> state \<Rightarrow> nat \<Rightarrow> state \<Rightarrow> bool" where
  succ_path_refl: "succ_path g s 0 s"
| succ_path_step: "successors_state s g = Some succs \<Longrightarrow> (a, s', c) \<in> set succs \<Longrightarrow>
     succ_path g s' n s'' \<Longrightarrow> succ_path g s (Suc n) s''"

code_pred succ_path .

text \<open>\<open>plan_path g s as s'\<close>: the actions \<open>as\<close>, in order, label generated transitions that
  lead from \<open>s\<close> to \<open>s'\<close>.\<close>

inductive plan_path :: "game \<Rightarrow> state \<Rightarrow> action list \<Rightarrow> state \<Rightarrow> bool" where
  plan_path_Nil: "plan_path g s [] s"
| plan_path_Cons: "successors_state s g = Some succs \<Longrightarrow> (a, s', c) \<in> set succs \<Longrightarrow>
     plan_path g s' as s'' \<Longrightarrow> plan_path g s (a # as) s''"

code_pred plan_path .

text \<open>
  The invariant of the planner's loop, for a start state \<open>s0\<close> that is its own key:
  \<open>came_from\<close> holds \<open>(None, None)\<close> exactly for \<open>s0\<close>; every other entry is a generated
  transition from its parent, the parent is itself in \<open>came_from\<close> and has a smaller
  \<open>gscore\<close>; every frontier node carries a state that is its own key, is in \<open>came_from\<close>,
  and has a \<open>gscore\<close> no greater than the node's \<open>g\<close>.
\<close>

definition astar_inv :: "game \<Rightarrow> state \<Rightarrow> astar_vars \<Rightarrow> bool" where
  "astar_inv g s0 vs \<longleftrightarrow>
     came_from vs s0 = Some None \<and> gscore vs s0 = Some 0 \<and>
     (\<forall>k. came_from vs k = Some None \<longrightarrow> k = s0) \<and>
     (\<forall>k p a. came_from vs k = Some (Some (p, a)) \<longrightarrow>
        (\<exists>succs c. successors_state p g = Some succs \<and> (a, k, c) \<in> set succs) \<and>
        came_from vs p \<noteq> None \<and>
        (\<exists>gp gk. gscore vs p = Some gp \<and> gscore vs k = Some gk \<and> 0 \<le> gp \<and> gp < gk)) \<and>
     (\<forall>n \<in> set (frontier vs).
        state_to_key (node_state n) = node_state n \<and> came_from vs (node_state n) \<noteq> None \<and>
        (\<exists>gk. gscore vs (node_state n) = Some gk \<and> 0 \<le> gk \<and> gk \<le> node_g n))"

text \<open>A live game \<open>G\<close> stands where the search state \<open>s\<close> of a plan for \<open>g\<close> stands: same
  board and \<open>total_pairs\<close>, and the matched tuple of \<open>s\<close> lists the matched set of \<open>G\<close> once
  each.\<close>

definition stands_at :: "game \<Rightarrow> game \<Rightarrow> state \<Rightarrow> bool" where
  "stands_at g G s \<longleftrightarrow>
     board G = board g \<and> total_pairs G = total_pairs g \<and>
     matched G = set (fst s) \<and> distinct (fst s)"

text \<open>The tie-break the specification words: of the entries with the least \<open>f\<close>, the one
  inserted first. The frontier list is in insertion order.\<close>

definition fifo_pop :: "node list \<Rightarrow> node option" where
  "fifo_pop heap =
     (if heap = [] then None
      else find (\<lambda>n. node_f n = min_list (map node_f heap)) heap)"

subsection \<open>Example games\<close>

definition game_1221 :: game where
  "game_1221 = \<lparr>gsize = 2, total_pairs = 2, board = [[1, 2], [2, 1]],
                 matched = {}, moves = 0, seen = []\<rparr>"

definition game_1122 :: game where
  "game_1122 = \<lparr>gsize = 2, total_pairs = 2, board = [[1, 1], [2, 2]],
                 matched = {}, moves = 0, seen = []\<rparr>"

text \<open>The first card of \<open>game_1221\<close> has been turned and is remembered.\<close>

definition game_1221_seen :: game where
  "game_1221_seen = \<lparr>gsize = 2, total_pairs = 2, board = [[1, 2], [2, 1]],
                      matched = {}, moves = 1, seen = [((0, 0), 1)]\<rparr>"

section \<open>Properties\<close>

subsection \<open>Canonical keys\<close>

lemma sort_cong_mset: "mset xs = mset ys \<Longrightarrow> sort xs = sort (ys :: 'a::linorder list)"
  by (metis mset_sort properties_for_sort sorted_sort)

lemma sort_items_fix:
  "map (\<lambda>(val, pos_list). (val, sort pos_list)) (sort (map (\<lambda>(val, pos_list). (val, sort pos_list)) xs))
     = sort (map (\<lambda>(val, pos_list). (val, sort pos_list)) (xs :: ('a::linorder \<times> 'b::linorder list) list))"
proof (rule map_idI)
  fix y
  assume "y \<in> set (sort (map (\<lambda>(val, pos_list). (val, sort pos_list)) xs))"
  then obtain v ps where "y = (v :: 'a, sort (ps :: 'b list))"
    by auto
  then show "(case y of (val, pos_list) \<Rightarrow> (val, sort pos_list)) = y"
    by (simp add: sorted_sort_id)
qed

lemma mset_items_cong:
  assumes "image_mset (\<lambda>(v, ps). (v, mset ps)) (mset s1) = image_mset (\<lambda>(v, ps). (v, mset ps)) (mset s2)"
  shows "mset (map (\<lambda>(val, pos_list). (val, sort pos_list)) s1)
       = mset (map (\<lambda>(val, pos_list). (val, sort pos_list)) (s2 :: ('a \<times> 'b::linorder list) list))"
proof -
  let ?k = "\<lambda>(v :: 'a, ps :: 'b list). (v, mset ps)"
  let ?h = "\<lambda>(v :: 'a, M :: 'b multiset). (v, sorted_list_of_multiset M)"
  have eq: "(\<lambda>(val, pos_list). (val, sort pos_list)) = ?h \<circ> ?k"
    by (auto simp: fun_eq_iff)
  have step: "mset (map (?h \<circ> ?k) s) = image_mset ?h (image_mset ?k (mset s))" for s
    by (simp add: multiset.map_comp)
  have "image_mset ?h (image_mset ?k (mset s1)) = image_mset ?h (image_mset ?k (mset s2))"
    by (rule arg_cong [OF assms])
  then show ?thesis
    unfolding eq step .
qed

text \<open>
  Claim C7. \<open>state_to_key\<close> is idempotent, and two states whose matched tuples hold the same
  positions and whose remembered items hold the same values with the same positions, in
  whatever order the tuples, the items and the positions inside an item are listed, have
  the same key.
\<close>

theorem state_to_key_canonical:
  "state_to_key (state_to_key st) = state_to_key st \<and>
   (mset m1 = mset m2 \<and>
    image_mset (\<lambda>(v, ps). (v, mset ps)) (mset s1) = image_mset (\<lambda>(v, ps). (v, mset ps)) (mset s2)
    \<longrightarrow> state_to_key (m1, s1) = state_to_key (m2, s2))"
proof (intro conjI impI)
  obtain m s where st: "st = (m, s)"
    by (cases st)
  have "sort (sort m) = sort m"
    by (simp add: sorted_sort_id)
  moreover have "sort (map (\<lambda>(val, pos_list). (val, sort pos_list))
                   (sort (map (\<lambda>(val, pos_list). (val, sort pos_list)) s)))
               = sort (map (\<lambda>(val, pos_list). (val, sort pos_list)) s)"
    by (simp only: sort_items_fix) (simp add: sorted_sort_id)
  ultimately show "state_to_key (state_to_key st) = state_to_key st"
    unfolding st state_to_key_def prod.case by (simp only:)
next
  assume h: "mset m1 = mset m2 \<and>
    image_mset (\<lambda>(v, ps). (v, mset ps)) (mset s1) = image_mset (\<lambda>(v, ps). (v, mset ps)) (mset s2)"
  have a: "sort m1 = sort m2"
    by (rule sort_cong_mset) (rule conjunct1 [OF h])
  have b: "sort (map (\<lambda>(val, pos_list). (val, sort pos_list)) s1)
               = sort (map (\<lambda>(val, pos_list). (val, sort pos_list)) s2)"
    by (rule sort_cong_mset, rule mset_items_cong) (rule conjunct2 [OF h])
  show "state_to_key (m1, s1) = state_to_key (m2, s2)"
    unfolding state_to_key_def prod.case a b ..
qed

theorem state_to_key_canonical_witness:
  "mset [(1, 1), (0, 0)] = mset [(0, 0), (1, 1 :: nat)] \<and>
   image_mset (\<lambda>(v, ps). (v, mset ps)) (mset [(2 :: int, [(1, 0), (0, 1)]), (1, [(0, 0)])])
     = image_mset (\<lambda>(v, ps). (v, mset ps)) (mset [(1, [(0, 0 :: nat)]), (2, [(0, 1), (1, 0 :: nat)])]) \<and>
   state_to_key ([(1, 1), (0, 0)], [(2, [(1, 0), (0, 1)]), (1, [(0, 0)])])
     = state_to_key ([(0, 0), (1, 1)], [(1, [(0, 0)]), (2, [(0, 1), (1, 0)])])"
proof -
  have h1: "mset [(1, 1), (0, 0)] = mset [(0, 0), (1, 1 :: nat)]"
    by simp
  have h2: "image_mset (\<lambda>(v, ps). (v, mset ps)) (mset [(2 :: int, [(1, 0), (0, 1)]), (1, [(0, 0)])])
     = image_mset (\<lambda>(v, ps). (v, mset ps)) (mset [(1, [(0, 0 :: nat)]), (2, [(0, 1), (1, 0 :: nat)])])"
    by simp
  have eq: "state_to_key ([(1, 1), (0, 0)], [(2, [(1, 0), (0, 1)]), (1, [(0, 0)])])
     = state_to_key ([(0, 0), (1, 1)], [(1, [(0, 0)]), (2, [(0, 1), (1, 0)])])"
    by (rule state_to_key_canonical [THEN conjunct2, THEN mp, OF conjI, OF h1 h2])
  show ?thesis
    by (intro conjI h1 h2 eq)
qed

subsection \<open>The successor generator\<close>

lemma those_SomeD: "those xs = Some ys \<Longrightarrow> xs = map Some ys"
  by (induction xs arbitrary: ys) (auto split: option.splits)

lemma set_map_filter: "set (List.map_filter f xs) = {y. \<exists>x \<in> set xs. f x = Some y}"
  by (induction xs) (auto simp: List.map_filter_simps split: option.splits)

lemma match_succ_cases:
  assumes "match_succ ms sm item = Some t"
  obtains val poses p1 p2 where "item = (val, poses)"
    and "2 \<le> length (filter (\<lambda>p. p \<notin> ms) poses)"
    and "p1 = filter (\<lambda>p. p \<notin> ms) poses ! 0" and "p2 = filter (\<lambda>p. p \<notin> ms) poses ! 1"
    and "t = ((''match'', (p1, p2)),
              freeze (insert p2 (insert p1 ms))
                (filter (\<lambda>(k, v). v \<noteq> []) (map (\<lambda>(k, v). (k, filter (\<lambda>x. x \<notin> {p1, p2}) v)) sm)), 1)"
  using assms by (cases item) (auto simp: match_succ_def Let_def split: if_splits)

lemma turn_succ_cases:
  assumes "turn_succ g ms sm c d = Some t"
  obtains (hit) v where "value_at g c = Some v" and "value_at g d = Some v" and "c \<noteq> d"
      and "t = ((''turn'', (c, d)),
                freeze (insert d (insert c ms)) (forget_pair (remember (remember sm v c) v d) v c d), 1)"
  | (miss) v_c v_d where "value_at g c = Some v_c" and "value_at g d = Some v_d"
      and "v_c \<noteq> v_d \<or> c = d"
      and "t = ((''turn'', (c, d)), freeze ms (remember (remember sm v_c c) v_d d), 1)"
  using assms by (auto simp: turn_succ_def Let_def split: option.splits if_splits)

lemma successors_cases:
  assumes "successors_state (m, sn) g = Some succs" and "t \<in> set succs"
  obtains (known) item where "item \<in> set (dict_of_items sn)"
      and "match_succ (set m) (dict_of_items sn) item = Some t"
  | (explore) c d where
      "List.map_filter (match_succ (set m) (dict_of_items sn)) (dict_of_items sn) = []"
      and "c \<in> set (take K (unseen_of g (set m) (dict_of_items sn)))"
      and "d \<in> set (seen_positions_of (set m) (dict_of_items sn)) \<and> d \<noteq> c
           \<or> d \<in> set (others_of g (set m) c)"
      and "turn_succ g (set m) (dict_of_items sn) c d = Some t"
proof (cases "List.map_filter (match_succ (set m) (dict_of_items sn)) (dict_of_items sn) = []")
  case False
  then have "succs = List.map_filter (match_succ (set m) (dict_of_items sn)) (dict_of_items sn)"
    using assms(1) by (simp add: successors_state_def Let_def)
  then show ?thesis
    using assms(2) known by (auto simp: set_map_filter)
next
  case True
  then have "those (explore g (set m) (dict_of_items sn)) = Some succs"
    using assms(1) by (simp add: successors_state_def Let_def)
  then have "explore g (set m) (dict_of_items sn) = map Some succs"
    by (rule those_SomeD)
  then have "Some t \<in> set (explore g (set m) (dict_of_items sn))"
    using assms(2) by simp
  then obtain c where c: "c \<in> set (take K (unseen_of g (set m) (dict_of_items sn)))"
    and "Some t \<in> set (memory_turns g (set m) (dict_of_items sn) c)
         \<or> Some t \<in> set (blind_turns g (set m) (dict_of_items sn) c)"
    by (auto simp: explore_def)
  then have "\<exists>d. (d \<in> set (seen_positions_of (set m) (dict_of_items sn)) \<and> d \<noteq> c
                  \<or> d \<in> set (others_of g (set m) c)) \<and>
              turn_succ g (set m) (dict_of_items sn) c d = Some t"
    unfolding memory_turns_def blind_turns_def set_map set_filter image_iff
    by (elim disjE bexE) (metis (mono_tags, lifting) mem_Collect_eq)+
  with c True explore show ?thesis
    by blast
qed

lemma length_freeze_le:
  "length (fst (freeze (insert a (insert b (set m))) d)) \<le> length m + 2"
proof -
  have "card (insert b (set m)) \<le> Suc (card (set m))"
    by (simp add: card_insert_if)
  moreover have "card (insert a (insert b (set m))) \<le> Suc (card (insert b (set m)))"
    by (simp add: card_insert_if)
  ultimately have "card (insert a (insert b (set m))) \<le> card (set m) + 2"
    by linarith
  also have "\<dots> \<le> length m + 2"
    by (simp add: card_length)
  finally show ?thesis
    unfolding freeze_def fst_conv length_sorted_list_of_set .
qed

lemma length_freeze_same: "length (fst (freeze (set m) d)) \<le> length m"
  unfolding freeze_def fst_conv length_sorted_list_of_set by (rule card_length)

lemma successor_matched_length:
  assumes "successors_state s g = Some succs" and "(a, s', c) \<in> set succs"
  shows "length (fst s') \<le> length (fst s) + 2"
proof -
  obtain m sn where s: "s = (m, sn)" by (cases s)
  from assms(1) [unfolded s] assms(2) show ?thesis
  proof (cases rule: successors_cases)
    case (known item)
    from known(2) show ?thesis
    proof (cases rule: match_succ_cases)
      case (1 val poses p1 p2)
      then show ?thesis
        unfolding s using length_freeze_le [of p2 p1 m] by simp
    qed
  next
    case (explore c' d)
    from explore(4) show ?thesis
    proof (cases rule: turn_succ_cases)
      case (hit v)
      then show ?thesis
        unfolding s using length_freeze_le [of d c' m] by simp
    next
      case (miss v_c v_d)
      then show ?thesis
        unfolding s using length_freeze_same [of m] by (simp add: le_SucI)
    qed
  qed
qed

lemma successor_cost:
  assumes "successors_state s g = Some succs" and "(a, s', c) \<in> set succs"
  shows "c = 1"
proof -
  obtain m sn where s: "s = (m, sn)" by (cases s)
  from assms(1) [unfolded s] assms(2) show ?thesis
    by (cases rule: successors_cases) (auto elim!: match_succ_cases turn_succ_cases)
qed

lemma heuristic_step:
  assumes "successors_state s g = Some succs" and "(a, s', c) \<in> set succs"
  shows "heuristic_state s tp \<le> heuristic_state s' tp + 1"
proof -
  have "length (fst s') \<le> length (fst s) + 2"
    by (rule successor_matched_length [OF assms])
  then have "int (length (fst s')) div 2 \<le> int (length (fst s)) div 2 + 1"
    by linarith
  then show ?thesis
    by (cases s, cases s') (simp add: heuristic_state_def)
qed

lemma heuristic_path:
  "succ_path g s n s' \<Longrightarrow> heuristic_state s tp \<le> heuristic_state s' tp + int n"
proof (induction rule: succ_path.induct)
  case (succ_path_refl g s)
  show ?case by simp
next
  case (succ_path_step s g succs a s' c n s'')
  from heuristic_step [OF succ_path_step.hyps(1,2), of tp] succ_path_step.IH
  show ?case by simp
qed

text \<open>
  Claim C3. The heuristic is \<open>total_pairs\<close> minus the matched pairs of the state; one
  generated transition raises the matched-pair count by at most one; so a path of \<open>n\<close>
  generated transitions from \<open>s\<close> to a goal state has \<open>h(s) \<le> n\<close>.
\<close>

theorem heuristic_admissible:
  "heuristic_state s tp = tp - int (length (fst s)) div 2 \<and>
   (successors_state s g = Some succs \<and> (a, s1, c) \<in> set succs
      \<longrightarrow> int (length (fst s1)) div 2 \<le> int (length (fst s)) div 2 + 1) \<and>
   (succ_path g s n s' \<and> int (length (fst s')) div 2 = tp \<longrightarrow> heuristic_state s tp \<le> int n)"
proof (intro conjI impI)
  show "heuristic_state s tp = tp - int (length (fst s)) div 2"
    by (cases s) (simp add: heuristic_state_def)
next
  assume "successors_state s g = Some succs \<and> (a, s1, c) \<in> set succs"
  then have "length (fst s1) \<le> length (fst s) + 2"
    using successor_matched_length by blast
  then show "int (length (fst s1)) div 2 \<le> int (length (fst s)) div 2 + 1"
    by linarith
next
  assume h: "succ_path g s n s' \<and> int (length (fst s')) div 2 = tp"
  then have "heuristic_state s' tp = 0"
    by (cases s') (simp add: heuristic_state_def)
  with heuristic_path [of g s n s' tp] h show "heuristic_state s tp \<le> int n"
    by simp
qed


theorem heuristic_admissible_witness:
  "successors_state ([], [(1, [(0, 0), (1, 1)])]) game_1221
     = Some [((''match'', ((0, 0), (1, 1))), ([(0, 0), (1, 1)], []), 1)] \<and>
   int (length (fst (([(0, 0), (1, 1)], []) :: state))) div 2
     \<le> int (length (fst (([], [(1, [(0, 0), (1, 1)])]) :: state))) div 2 + 1 \<and>
   succ_path game_1221 ([], [(1, [(0, 0), (1, 1)])]) 2 ([(0, 0), (0, 1), (1, 0), (1, 1)], []) \<and>
   heuristic_state ([], [(1, [(0, 0), (1, 1)])]) 2 \<le> int 2 \<and>
   heuristic_state ([], [(1, [(0, 0), (1, 1)])]) 2 = 2"
proof -
  let ?s0 = "([], [(1, [(0, 0), (1, 1)])]) :: state"
  let ?s1 = "([(0, 0), (1, 1)], []) :: state"
  let ?s2 = "([(0, 0), (0, 1), (1, 0), (1, 1)], []) :: state"
  have e1: "successors_state ?s0 game_1221 = Some [((''match'', ((0, 0), (1, 1))), ?s1, 1)]"
    by code_simp
  have e2: "successors_state ?s1 game_1221
      = Some [((''turn'', ((0, 1), (1, 0))), ?s2, 1), ((''turn'', ((1, 0), (0, 1))), ?s2, 1)]"
    by code_simp
  have m1: "((''match'', ((0, 0), (1, 1))), ?s1, 1) \<in> set [((''match'', ((0, 0), (1, 1))), ?s1, 1 :: int)]"
    by simp
  have m2: "((''turn'', ((0, 1), (1, 0))), ?s2, 1)
      \<in> set [((''turn'', ((0, 1), (1, 0))), ?s2, 1 :: int), ((''turn'', ((1, 0), (0, 1))), ?s2, 1)]"
    by simp
  have path: "succ_path game_1221 ?s0 2 ?s2"
    using succ_path_step [OF e1 m1 succ_path_step [OF e2 m2 succ_path_refl]]
    by (simp add: numeral_2_eq_2)
  have goal: "int (length (fst ?s2)) div 2 = 2"
    by simp
  note inst = heuristic_admissible [of ?s0 2 game_1221
      "[((''match'', ((0, 0), (1, 1))), ?s1, 1)]" "(''match'', ((0, 0), (1, 1)))" ?s1 1 2 ?s2]
  have a: "int (length (fst ?s1)) div 2 \<le> int (length (fst ?s0)) div 2 + 1"
    by (rule inst [THEN conjunct2, THEN conjunct1, THEN mp, OF conjI [OF e1 m1]])
  have b: "heuristic_state ?s0 2 \<le> int 2"
    by (rule inst [THEN conjunct2, THEN conjunct2, THEN mp, OF conjI [OF path goal]])
  have c: "heuristic_state ?s0 2 = 2"
    using inst [THEN conjunct1] by simp
  show ?thesis
    by (intro conjI e1 a path b c)
qed

lemma distinct_fold_update:
  "distinct (map fst d) \<Longrightarrow> distinct (map fst (fold (\<lambda>(k, v) d. AList.update k v d) xs d))"
  by (induction xs arbitrary: d) (auto simp: distinct_update)

lemma distinct_dict_of_items: "distinct (map fst (dict_of_items xs))"
  by (simp add: dict_of_items_def distinct_fold_update)

lemma match_succ_None_iff:
  "match_succ ms sm item = None \<longleftrightarrow> length (filter (\<lambda>p. p \<notin> ms) (snd item)) < 2"
proof -
  obtain val poses where item: "item = (val, poses)"
    by (cases item)
  have "2 \<le> length (filter (\<lambda>p. p \<notin> ms) poses) \<Longrightarrow> 2 \<le> length poses"
    by (rule le_trans [OF _ length_filter_le])
  then show ?thesis
    unfolding item by (auto simp: match_succ_def Let_def)
qed

lemma match_succ_shape:
  assumes "2 \<le> length (filter (\<lambda>p. p \<notin> ms) (snd item))"
  shows "\<exists>p1 p2 s'. the (match_succ ms sm item) = ((''match'', (p1, p2)), s', 1) \<and>
           [p1, p2] = take 2 (filter (\<lambda>p. p \<notin> ms) (snd item)) \<and>
           p1 \<in> set (snd item) \<and> p2 \<in> set (snd item) \<and> p1 \<notin> ms \<and> p2 \<notin> ms"
proof -
  obtain val poses where item: "item = (val, poses)"
    by (cases item)
  let ?av = "filter (\<lambda>p. p \<notin> ms) poses"
  from assms obtain p1 p2 rest where av: "?av = p1 # p2 # rest"
    unfolding item by (cases ?av; cases "tl ?av") auto
  from assms have len: "2 \<le> length poses"
    unfolding item snd_conv by (rule le_trans [OF _ length_filter_le])
  have "p1 \<in> set ?av" and "p2 \<in> set ?av"
    by (simp_all add: av)
  then have mem: "p1 \<in> set poses" "p2 \<in> set poses" "p1 \<notin> ms" "p2 \<notin> ms"
    by simp_all
  obtain s' where tr: "the (match_succ ms sm item) = ((''match'', (p1, p2)), s', 1)"
    using len assms av unfolding item by (simp add: match_succ_def Let_def)
  have tk: "[p1, p2] = take 2 (filter (\<lambda>p. p \<notin> ms) (snd item))"
    unfolding item snd_conv av by (simp add: numeral_2_eq_2)
  show ?thesis
    using tr tk mem unfolding item snd_conv by blast
qed

text \<open>
  Claim C2. When some value of the remembered map the generator builds has at least two
  unmatched positions, the generator returns exactly one transition for each such value, in
  the order of the map: a \<open>"match"\<close> of the first two unmatched positions listed under that
  value, at cost 1. No \<open>"turn"\<close> is returned.
\<close>

theorem known_pairs_only_matches:
  assumes "\<exists>item \<in> set (dict_of_items seen_t).
             2 \<le> length (filter (\<lambda>p. p \<notin> set matched_t) (snd item))"
  shows "\<exists>succs. successors_state (matched_t, seen_t) g = Some succs \<and> succs \<noteq> [] \<and>
           distinct (map fst (dict_of_items seen_t)) \<and>
           list_all2
             (\<lambda>item tr. \<exists>p1 p2 s'. tr = ((''match'', (p1, p2)), s', 1) \<and>
                [p1, p2] = take 2 (filter (\<lambda>p. p \<notin> set matched_t) (snd item)) \<and>
                p1 \<in> set (snd item) \<and> p2 \<in> set (snd item) \<and>
                p1 \<notin> set matched_t \<and> p2 \<notin> set matched_t)
             (filter (\<lambda>item. 2 \<le> length (filter (\<lambda>p. p \<notin> set matched_t) (snd item)))
                (dict_of_items seen_t))
             succs"
proof -
  let ?ms = "set matched_t" and ?sm = "dict_of_items seen_t"
  let ?known = "filter (\<lambda>item. 2 \<le> length (filter (\<lambda>p. p \<notin> ?ms) (snd item))) ?sm"
  let ?succs = "List.map_filter (match_succ ?ms ?sm) ?sm"
  have known_eq: "filter (\<lambda>x. match_succ ?ms ?sm x \<noteq> None) ?sm = ?known"
    by (rule filter_cong) (auto simp: match_succ_None_iff)
  have succs_eq: "?succs = map (the \<circ> match_succ ?ms ?sm) ?known"
    unfolding List.map_filter_def known_eq by (rule refl)
  from assms have "?known \<noteq> []"
    by (auto simp: filter_empty_conv)
  then have ne: "?succs \<noteq> []"
    by (simp add: succs_eq)
  then have res: "successors_state (matched_t, seen_t) g = Some ?succs"
    by (simp add: successors_state_def Let_def)
  have "list_all2
             (\<lambda>item tr. \<exists>p1 p2 s'. tr = ((''match'', (p1, p2)), s', 1) \<and>
                [p1, p2] = take 2 (filter (\<lambda>p. p \<notin> ?ms) (snd item)) \<and>
                p1 \<in> set (snd item) \<and> p2 \<in> set (snd item) \<and> p1 \<notin> ?ms \<and> p2 \<notin> ?ms)
             ?known ?succs"
    unfolding succs_eq list_all2_map2
    by (rule list_all2_same [THEN iffD2]) (use match_succ_shape in auto)
  with res ne distinct_dict_of_items [of seen_t] show ?thesis
    by blast
qed

theorem known_pairs_only_matches_witness:
  "(\<exists>item \<in> set (dict_of_items [(1 :: int, [(0, 0), (1, 1)]), (2, [(0, 1)])]).
      2 \<le> length (filter (\<lambda>p. p \<notin> set ([] :: pos list)) (snd item))) \<and>
   successors_state ([], [(1, [(0, 0), (1, 1)]), (2, [(0, 1)])]) game_1221
     = Some [((''match'', ((0, 0), (1, 1))), ([(0, 0), (1, 1)], [(2, [(0, 1)])]), 1)]"
proof -
  have h: "\<exists>item \<in> set (dict_of_items [(1 :: int, [(0, 0), (1, 1)]), (2, [(0, 1)])]).
      2 \<le> length (filter (\<lambda>p. p \<notin> set ([] :: pos list)) (snd item))"
    by code_simp
  from known_pairs_only_matches [OF h, of game_1221]
  have "\<exists>succs. successors_state ([], [(1, [(0, 0), (1, 1)]), (2, [(0, 1)])]) game_1221 = Some succs"
    by blast
  moreover have "successors_state ([], [(1, [(0, 0), (1, 1)]), (2, [(0, 1)])]) game_1221
     = Some [((''match'', ((0, 0), (1, 1))), ([(0, 0), (1, 1)], [(2, [(0, 1)])]), 1)]"
    by code_simp
  ultimately show ?thesis
    using h by blast
qed

subsection \<open>Blind exploration\<close>

text \<open>
  Claim C6, as amended. In the exploration phase the second inner loop pairs a candidate
  \<open>c\<close> with the first \<open>K\<close> unmatched positions other than \<open>c\<close>, in board order, whether or
  not the state remembers them: at most \<open>K\<close> turns, each \<open>("turn", (c, d))\<close> with \<open>d\<close> an
  unmatched board position different from \<open>c\<close>.
\<close>

theorem blind_turns_pair_unmatched:
  "blind_turns g ms sm c
     = map (turn_succ g ms sm c) (take K (filter (\<lambda>p. p \<noteq> c) (filter (\<lambda>p. p \<notin> ms) (all_positions g)))) \<and>
   length (blind_turns g ms sm c) \<le> K \<and>
   (\<forall>d \<in> set (others_of g ms c). d \<noteq> c \<and> d \<notin> ms \<and> d \<in> set (all_positions g)) \<and>
   (\<forall>t. Some t \<in> set (blind_turns g ms sm c)
        \<longrightarrow> (\<exists>d \<in> set (others_of g ms c). fst t = (''turn'', (c, d)) \<and> snd (snd t) = 1))"
proof (intro conjI ballI allI impI)
  show "blind_turns g ms sm c
     = map (turn_succ g ms sm c) (take K (filter (\<lambda>p. p \<noteq> c) (filter (\<lambda>p. p \<notin> ms) (all_positions g))))"
    by (simp add: blind_turns_def others_of_def unmatched_of_def)
next
  show "length (blind_turns g ms sm c) \<le> K"
    by (simp add: blind_turns_def others_of_def)
next
  fix d assume "d \<in> set (others_of g ms c)"
  then have "d \<in> set (filter (\<lambda>p. p \<noteq> c) (unmatched_of g ms))"
    unfolding others_of_def by (blast dest: in_set_takeD)
  then show "d \<noteq> c" and "d \<notin> ms" and "d \<in> set (all_positions g)"
    by (simp_all add: unmatched_of_def)
next
  fix t assume "Some t \<in> set (blind_turns g ms sm c)"
  then obtain d where d: "d \<in> set (others_of g ms c)" and "turn_succ g ms sm c d = Some t"
    unfolding blind_turns_def by (metis (no_types, lifting) imageE set_map)
  from this(2) have "fst t = (''turn'', (c, d)) \<and> snd (snd t) = 1"
    by (cases rule: turn_succ_cases) simp_all
  with d show "\<exists>d \<in> set (others_of g ms c). fst t = (''turn'', (c, d)) \<and> snd (snd t) = 1"
    by blast
qed

theorem blind_turns_pair_unmatched_witness:
  "(0, 0) \<in> set (others_of game_1221_seen {} (0, 1)) \<and>
   ((0, 0) \<noteq> ((0, 1) :: pos) \<and> (0, 0) \<notin> ({} :: pos set) \<and> (0, 0) \<in> set (all_positions game_1221_seen)) \<and>
   Some ((''turn'', ((0, 1), (1, 0))), ([(0, 1), (1, 0)], [(1, [(0, 0)])]), 1)
     \<in> set (blind_turns game_1221_seen {} [(1, [(0, 0)])] (0, 1)) \<and>
   (\<exists>d \<in> set (others_of game_1221_seen {} (0, 1)).
      fst (((''turn'', ((0, 1), (1, 0))), ([(0, 1), (1, 0)], [(1, [(0, 0)])]), 1) :: transition)
        = (''turn'', ((0, 1), d)) \<and>
      snd (snd (((''turn'', ((0, 1), (1, 0))), ([(0, 1), (1, 0)], [(1, [(0, 0)])]), 1) :: transition)) = 1)"
proof -
  note inst = blind_turns_pair_unmatched [of game_1221_seen "{}" "[(1, [(0, 0)])]" "(0, 1)"]
  have h1: "(0, 0) \<in> set (others_of game_1221_seen {} (0, 1))"
    by code_simp
  have h2: "Some ((''turn'', ((0, 1), (1, 0))), ([(0, 1), (1, 0)], [(1, [(0, 0)])]), 1)
     \<in> set (blind_turns game_1221_seen {} [(1, [(0, 0)])] (0, 1))"
    by code_simp
  have c1: "(0, 0) \<noteq> ((0, 1) :: pos) \<and> (0, 0) \<notin> ({} :: pos set) \<and> (0, 0) \<in> set (all_positions game_1221_seen)"
    by (rule inst [THEN conjunct2, THEN conjunct2, THEN conjunct1, THEN bspec, OF h1])
  have c2: "\<exists>d \<in> set (others_of game_1221_seen {} (0, 1)).
      fst (((''turn'', ((0, 1), (1, 0))), ([(0, 1), (1, 0)], [(1, [(0, 0)])]), 1) :: transition)
        = (''turn'', ((0, 1), d)) \<and>
      snd (snd (((''turn'', ((0, 1), (1, 0))), ([(0, 1), (1, 0)], [(1, [(0, 0)])]), 1) :: transition)) = 1"
    using inst [THEN conjunct2, THEN conjunct2, THEN conjunct2, rule_format, OF h2] .
  show ?thesis
    by (intro conjI h1 h2 c2 c1 [THEN conjunct1] c1 [THEN conjunct2, THEN conjunct1]
        c1 [THEN conjunct2, THEN conjunct2])
qed

text \<open>
  Claim C6 as stated fails: on the board \<open>[[1, 2], [2, 1]]\<close> with \<open>(0, 0)\<close> remembered, the
  state has no known pair, \<open>(0, 1)\<close> is a candidate, and its blind turns pair it with the
  remembered position \<open>(0, 0)\<close>.
\<close>

theorem blind_turns_pair_seen_counterexample:
  "successors_state ([], [(1, [(0, 0)])]) game_1221_seen
     = those (explore game_1221_seen (set []) (dict_of_items [(1, [(0, 0)])])) \<and>
   (0, 1) \<in> set (take K (unseen_of game_1221_seen (set []) (dict_of_items [(1, [(0, 0)])]))) \<and>
   (0, 0) \<in> set (concat (map snd (dict_of_items [(1 :: int, [(0, 0) :: pos])]))) \<and>
   blind_turns game_1221_seen (set []) (dict_of_items [(1, [(0, 0)])]) (0, 1)
     = [Some ((''turn'', ((0, 1), (0, 0))), ([], [(1, [(0, 0)]), (2, [(0, 1)])]), 1),
        Some ((''turn'', ((0, 1), (1, 0))), ([(0, 1), (1, 0)], [(1, [(0, 0)])]), 1),
        Some ((''turn'', ((0, 1), (1, 1))), ([], [(1, [(0, 0), (1, 1)]), (2, [(0, 1)])]), 1)]"
  by code_simp

subsection \<open>The invariants of search states\<close>

lemma wf_map_iff:
  "wf_map ms d \<longleftrightarrow> (\<forall>v ps. (v, ps) \<in> set d \<longrightarrow> ps \<noteq> [] \<and> distinct ps \<and> (\<forall>p \<in> set ps. p \<notin> ms))"
  by (auto simp: wf_map_def list_all_iff)

lemma true_map_iff:
  "true_map g d \<longleftrightarrow> (\<forall>v ps. (v, ps) \<in> set d \<longrightarrow> (\<forall>p \<in> set ps. value_at g p = Some v))"
  by (auto simp: true_map_def list_all_iff)

lemma set_update_subset: "set (AList.update k v d) \<subseteq> insert (k, v) (set d)"
  by (induction d) auto

lemma set_fold_update_subset:
  "set (fold (\<lambda>(k, v) d. AList.update k v d) xs d) \<subseteq> set xs \<union> set d"
proof (induction xs arbitrary: d)
  case Nil
  show ?case by simp
next
  case (Cons x xs)
  obtain k v where x: "x = (k, v)" by (cases x)
  from Cons [of "AList.update k v d"] set_update_subset [of k v d]
  show ?case by (auto simp: x)
qed

lemma set_dict_of_items: "set (dict_of_items xs) \<subseteq> set xs"
  using set_fold_update_subset [of xs "[]"] by (simp add: dict_of_items_def)

lemma wf_map_dict_of_items: "wf_map ms sn \<Longrightarrow> wf_map ms (dict_of_items sn)"
  using set_dict_of_items [of sn] by (auto simp: wf_map_iff)

lemma true_map_dict_of_items: "true_map g sn \<Longrightarrow> true_map g (dict_of_items sn)"
  using set_dict_of_items [of sn] unfolding true_map_iff by blast

lemma sort_eq_Nil_iff: "sort xs = [] \<longleftrightarrow> xs = []"
  by (metis length_sort length_0_conv)

lemma set_seen_freeze:
  "set (snd (freeze A d)) = (\<lambda>(k, v). (k, sort v)) ` set d"
  by (simp add: freeze_def)

lemma set_matched_freeze: "finite A \<Longrightarrow> set (fst (freeze A d)) = A"
  by (simp add: freeze_def)

lemma distinct_matched_freeze: "distinct (fst (freeze A d))"
  by (simp add: freeze_def)

lemma wf_state_freeze: "finite A \<Longrightarrow> wf_map A d \<Longrightarrow> wf_state (freeze A d)"
proof -
  assume fin: "finite A" and wf: "wf_map A d"
  obtain m sn where fr: "freeze A d = (m, sn)" by (cases "freeze A d")
  have m: "set m = A"
    using set_matched_freeze [OF fin, of d] by (simp add: fr)
  have sn: "set sn = (\<lambda>(k, v). (k, sort v)) ` set d"
    using set_seen_freeze [of A d] by (simp add: fr)
  have "wf_map (set m) sn"
    unfolding wf_map_iff m sn using wf [unfolded wf_map_iff] by (auto simp: sort_eq_Nil_iff)
  then show ?thesis
    by (simp add: wf_state_def fr)
qed

lemma memory_true_freeze: "true_map g d \<Longrightarrow> memory_true g (freeze A d)"
  unfolding memory_true_def true_map_iff set_seen_freeze by auto

lemma distinct_remember: "distinct (map fst d) \<Longrightarrow> distinct (map fst (remember d v p))"
  by (auto simp: remember_def distinct_update map_of_eq_None_iff split: option.splits)

lemma set_remember:
  "(k, ps) \<in> set (remember d v p) \<Longrightarrow>
     (k, ps) \<in> set d \<or> (k = v \<and> ps = [p]) \<or> (k = v \<and> (\<exists>l. (v, l) \<in> set d \<and> p \<notin> set l \<and> ps = l @ [p]))"
proof (cases "map_of d v")
  case None
  assume "(k, ps) \<in> set (remember d v p)"
  with None show ?thesis by (auto simp: remember_def)
next
  case (Some l)
  assume h: "(k, ps) \<in> set (remember d v p)"
  from Some have l: "(v, l) \<in> set d" by (rule map_of_SomeD)
  show ?thesis
  proof (cases "p \<in> set l")
    case True
    with h Some show ?thesis by (simp add: remember_def)
  next
    case False
    with h Some have "(k, ps) \<in> set (AList.update v (l @ [p]) d)"
      by (simp add: remember_def)
    with set_update_subset [of v "l @ [p]" d] have "(k, ps) = (v, l @ [p]) \<or> (k, ps) \<in> set d"
      by blast
    with l False show ?thesis by blast
  qed
qed

lemma wf_map_remember: "wf_map ms d \<Longrightarrow> p \<notin> ms \<Longrightarrow> wf_map ms (remember d v p)"
  unfolding wf_map_iff by (auto dest!: set_remember)

lemma true_map_remember:
  "true_map g d \<Longrightarrow> value_at g p = Some v \<Longrightarrow> true_map g (remember d v p)"
  unfolding true_map_iff by (auto dest!: set_remember)

lemma map_of_remember: "map_of (remember d v p) v \<noteq> None"
  by (auto simp: remember_def update_conv' map_add_def split: option.splits)


lemma set_update_distinct:
  assumes "distinct (map fst d)" and "(k, ps) \<in> set (AList.update v l d)"
  shows "(k = v \<and> ps = l) \<or> (k \<noteq> v \<and> (k, ps) \<in> set d)"
proof -
  have "distinct (map fst (AList.update v l d))"
    using assms(1) by (rule distinct_update)
  with assms(2) have "map_of (AList.update v l d) k = Some ps"
    by simp
  then have "((map_of d)(v \<mapsto> l)) k = Some ps"
    by (simp add: update_conv')
  then show ?thesis
    using assms(1) by (cases "k = v") auto
qed

lemma set_forget_pair:
  assumes "distinct (map fst d)" and "map_of d v \<noteq> None"
    and "(k, ps) \<in> set (forget_pair d v c e)"
  shows "(k \<noteq> v \<and> (k, ps) \<in> set d) \<or>
         (k = v \<and> ps \<noteq> [] \<and> (\<exists>l. (v, l) \<in> set d \<and> ps = filter (\<lambda>x. x \<notin> {c, e}) l))"
proof -
  from assms(2) obtain l where l: "map_of d v = Some l"
    by blast
  then have mem: "(v, l) \<in> set d"
    by (rule map_of_SomeD)
  show ?thesis
  proof (cases "filter (\<lambda>x. x \<notin> {c, e}) l = []")
    case True
    with l assms(3) have "(k, ps) \<in> set (AList.delete v d)"
      by (simp add: forget_pair_def)
    then show ?thesis
      by (auto simp: AList.delete_eq)
  next
    case False
    with l assms(3) have "(k, ps) \<in> set (AList.update v (filter (\<lambda>x. x \<notin> {c, e}) l) d)"
      by (simp add: forget_pair_def)
    from set_update_distinct [OF assms(1) this] False mem show ?thesis
      by auto
  qed
qed

lemma wf_map_forget_pair:
  assumes "wf_map ms d" and "true_map g d" and "distinct (map fst d)" and "map_of d v \<noteq> None"
    and "value_at g c = Some v" and "value_at g e = Some v"
  shows "wf_map (insert e (insert c ms)) (forget_pair d v c e)"
  unfolding wf_map_iff
proof (intro allI impI)
  fix k ps assume "(k, ps) \<in> set (forget_pair d v c e)"
  from set_forget_pair [OF assms(3,4) this]
  show "ps \<noteq> [] \<and> distinct ps \<and> (\<forall>p \<in> set ps. p \<notin> insert e (insert c ms))"
  proof (elim disjE conjE exE)
    assume kv: "k \<noteq> v" and mem: "(k, ps) \<in> set d"
    from mem assms(2) have "\<forall>p \<in> set ps. value_at g p = Some k"
      unfolding true_map_iff by blast
    with kv assms(5,6) have "c \<notin> set ps" and "e \<notin> set ps"
      by auto
    with mem assms(1) show ?thesis
      unfolding wf_map_iff by blast
  next
    fix l assume "ps \<noteq> []" and "(v, l) \<in> set d" and "ps = filter (\<lambda>x. x \<notin> {c, e}) l"
    with assms(1) show ?thesis
      unfolding wf_map_iff by auto
  qed
qed

lemma true_map_forget_pair:
  assumes "true_map g d" and "distinct (map fst d)" and "map_of d v \<noteq> None"
  shows "true_map g (forget_pair d v c e)"
  unfolding true_map_iff
proof (intro allI impI)
  fix k ps assume "(k, ps) \<in> set (forget_pair d v c e)"
  from set_forget_pair [OF assms(2,3) this] assms(1)
  show "\<forall>p \<in> set ps. value_at g p = Some k"
    unfolding true_map_iff by auto
qed

lemma wf_map_match:
  assumes "wf_map ms sm"
  shows "wf_map (insert p2 (insert p1 ms))
           (filter (\<lambda>(k, v). v \<noteq> []) (map (\<lambda>(k, v). (k, filter (\<lambda>x. x \<notin> {p1, p2}) v)) sm))"
  using assms unfolding wf_map_iff by auto

lemma true_map_match:
  assumes "true_map g sm"
  shows "true_map g
           (filter (\<lambda>(k, v). v \<noteq> []) (map (\<lambda>(k, v). (k, filter (\<lambda>x. x \<notin> {p1, p2}) v)) sm))"
  using assms unfolding true_map_iff by auto

lemma unseen_unmatched: "c \<in> set (unseen_of g ms sm) \<Longrightarrow> c \<notin> ms \<and> c \<in> set (all_positions g)"
  by (auto simp: unseen_of_def unmatched_of_def Let_def split: if_splits)

lemma others_unmatched: "d \<in> set (others_of g ms c) \<Longrightarrow> d \<notin> ms \<and> d \<in> set (all_positions g)"
  by (auto simp: others_of_def unmatched_of_def dest!: in_set_takeD)

lemma seen_positions_unmatched: "d \<in> set (seen_positions_of ms sm) \<Longrightarrow> d \<notin> ms"
  by (simp add: seen_positions_of_def)

lemma successor_invariants:
  assumes "wf_state s" and "memory_true g s"
    and "successors_state s g = Some succs" and "(a, s', c) \<in> set succs"
  shows "wf_state s' \<and> memory_true g s'"
proof -
  obtain m sn where s: "s = (m, sn)" by (cases s)
  let ?ms = "set m" and ?sm = "dict_of_items sn"
  have wf: "wf_map ?ms ?sm"
    using assms(1) by (simp add: s wf_state_def wf_map_dict_of_items)
  have tr: "true_map g ?sm"
    using assms(2) by (simp add: s memory_true_def true_map_dict_of_items)
  have di: "distinct (map fst ?sm)"
    by (rule distinct_dict_of_items)
  from assms(3) [unfolded s] assms(4) show ?thesis
  proof (cases rule: successors_cases)
    case (known item)
    from known(2) show ?thesis
    proof (cases rule: match_succ_cases)
      case (1 val poses p1 p2)
      then show ?thesis
        using wf_map_match [OF wf, of p2 p1] true_map_match [OF tr, of p1 p2]
        by (simp add: wf_state_freeze memory_true_freeze insert_commute)
    qed
  next
    case (explore c' d)
    from explore(2) have c': "c' \<notin> ?ms"
      using unseen_unmatched by (blast dest: in_set_takeD)
    from explore(3) have d: "d \<notin> ?ms"
      using others_unmatched seen_positions_unmatched by blast
    from explore(4) show ?thesis
    proof (cases rule: turn_succ_cases)
      case (hit v)
      let ?d2 = "remember (remember ?sm v c') v d"
      have "wf_map ?ms ?d2" and "true_map g ?d2" and "distinct (map fst ?d2)"
        and "map_of ?d2 v \<noteq> None"
        using wf tr di c' d hit(1,2)
        by (simp_all add: wf_map_remember true_map_remember distinct_remember map_of_remember)
      then have "wf_map (insert d (insert c' ?ms)) (forget_pair ?d2 v c' d)"
        and "true_map g (forget_pair ?d2 v c' d)"
        using hit(1,2) by (simp_all add: wf_map_forget_pair true_map_forget_pair)
      with hit(4) show ?thesis
        by (simp add: wf_state_freeze memory_true_freeze)
    next
      case (miss v_c v_d)
      let ?d2 = "remember (remember ?sm v_c c') v_d d"
      have "wf_map ?ms ?d2" and "true_map g ?d2"
        using wf tr c' d miss(1,2) by (simp_all add: wf_map_remember true_map_remember)
      with miss(4) show ?thesis
        by (simp add: wf_state_freeze memory_true_freeze)
    qed
  qed
qed


lemma succ_path_invariants:
  assumes "succ_path g s n s'" and "wf_state s" and "memory_true g s"
  shows "wf_state s' \<and> memory_true g s'"
  using assms
proof (induction rule: succ_path.induct)
  case (succ_path_refl g s)
  then show ?case by simp
next
  case (succ_path_step s g succs a s' c n s'')
  from successor_invariants [OF succ_path_step.prems succ_path_step.hyps(1,2)]
  have "wf_state s'" and "memory_true g s'"
    by blast+
  then show ?case
    by (rule succ_path_step.IH)
qed

text \<open>
  The premise on the remembered values is needed only by the exploration phase, and only
  for states the generator is never given: on the board \<open>[[1, 1], [2, 2]]\<close> a state that
  remembers \<open>(0, 0)\<close> under the value 2 satisfies both invariants; turning \<open>(0, 1)\<close> with
  \<open>(0, 0)\<close> matches them, and since only the list of the board value is scrubbed,
  \<open>(0, 0)\<close> stays remembered under 2.
\<close>

lemma false_memory_parent_example:
  "wf_state ([], [(2, [(0, 0)])]) \<and> \<not> memory_true game_1122 ([], [(2, [(0, 0)])]) \<and>
   successors_state ([], [(2, [(0, 0)])]) game_1122
     = Some (the (successors_state ([], [(2, [(0, 0)])]) game_1122)) \<and>
   ((''turn'', ((0, 1), (0, 0))), ([(0, 0), (0, 1)], [(2, [(0, 0)])]), 1)
     \<in> set (the (successors_state ([], [(2, [(0, 0)])]) game_1122)) \<and>
   \<not> wf_state ([(0, 0), (0, 1)], [(2, [(0, 0)])])"
  by code_simp

subsection \<open>The planner's results\<close>

lemma astar_step_None_iff:
  "astar_step g m (vs, e) = Done (Returns None) \<longleftrightarrow>
     frontier vs = [] \<or>
     (\<exists>node rest. heappop (frontier vs) = Some (node, rest) \<and>
        int (length (fst (node_state node))) div 2 \<noteq> total_pairs g \<and> e + 1 > m)"
proof (cases "frontier vs = []")
  case True
  then show ?thesis
    by (simp add: astar_step_def)
next
  case False
  then obtain node rest where pop: "heappop (frontier vs) = Some (node, rest)"
    by (simp add: heappop_def)
  show ?thesis
  proof (cases "int (length (fst (node_state node))) div 2 = total_pairs g")
    case True
    with False pop show ?thesis
      by (simp add: astar_step_def Let_def split: option.splits sum.splits)
  next
    case False
    with \<open>frontier vs \<noteq> []\<close> pop show ?thesis
      by (simp add: astar_step_def Let_def split: option.splits)
  qed
qed

lemma astar_loop_Done: "astar_step g m x = Done r \<Longrightarrow> astar_loop g m x = r"
  by (subst astar_loop.simps) simp

lemma astar_loop_Next: "astar_step g m x = Next y \<Longrightarrow> astar_loop g m x = astar_loop g m y"
  by (subst astar_loop.simps) simp

lemma astar_loop_run:
  "astar_run g m n x = Next y \<Longrightarrow> astar_loop g m x = astar_loop g m y"
proof (induction n arbitrary: x)
  case 0
  then show ?case by simp
next
  case (Suc n)
  then obtain x' where "astar_step g m x = Next x'" and "astar_run g m n x' = Next y"
    by (auto split: step.splits)
  with Suc.IH [of x'] show ?case
    by (simp add: astar_loop_Next)
qed

lemma astar_loop_exit:
  "\<exists>n y. astar_run g m n x = Next y \<and> astar_step g m y = Done (astar_loop g m x)"
proof (induction g m x rule: astar_loop.induct)
  case (1 g m x)
  show ?case
  proof (cases "astar_step g m x")
    case (Done r)
    then have "astar_run g m 0 x = Next x \<and> astar_step g m x = Done (astar_loop g m x)"
      by (simp add: astar_loop_Done)
    then show ?thesis by blast
  next
    case (Next x')
    from "1.IH" [OF Next] obtain n y where
      "astar_run g m n x' = Next y" and "astar_step g m y = Done (astar_loop g m x')"
      by blast
    with Next have "astar_run g m (Suc n) x = Next y \<and> astar_step g m y = Done (astar_loop g m x)"
      by (simp add: astar_loop_Next)
    then show ?thesis by blast
  qed
qed

lemma astar_loop_None_iff:
  "astar_loop g m x = Returns None \<longleftrightarrow>
     (\<exists>n y. astar_run g m n x = Next y \<and> astar_step g m y = Done (Returns None))"
proof
  assume "astar_loop g m x = Returns None"
  with astar_loop_exit [of g m x] show
    "\<exists>n y. astar_run g m n x = Next y \<and> astar_step g m y = Done (Returns None)"
    by simp
next
  assume "\<exists>n y. astar_run g m n x = Next y \<and> astar_step g m y = Done (Returns None)"
  then obtain n y where "astar_run g m n x = Next y" and "astar_step g m y = Done (Returns None)"
    by blast
  then show "astar_loop g m x = Returns None"
    using astar_loop_run [of g m n x y] astar_loop_Done [of g m y "Returns None"]
    by (simp only:)
qed

lemma heappop_single: "heappop [n] = Some (n, [])"
  by (simp add: heappop_def)

lemma astar_first_step_goal:
  assumes "int (length (fst s0)) div 2 = total_pairs g"
  shows "astar_step g m (astar_init s0 g, 0) = Done (Returns (Some []))"
proof -
  have "reconstruct [state_to_key s0 \<mapsto> None] (state_to_key s0) [] = Some (Inr [])"
    by (subst reconstruct.simps) simp
  with assms show ?thesis
    by (simp add: astar_step_def astar_init_def Let_def heappush_def heappop_single node_state_def)
qed

lemma astar_first_step_budget:
  assumes "int (length (fst s0)) div 2 \<noteq> total_pairs g"
  shows "astar_step g 0 (astar_init s0 g, 0) = Done (Returns None)"
  using assms
  by (simp add: astar_step_def astar_init_def Let_def heappush_def heappop_single node_state_def)

text \<open>
  Claim C10. From an initial state whose matched count already equals \<open>total_pairs\<close> the
  planner returns the empty plan, whatever the budget: the goal test on the popped node
  comes before the budget test.
\<close>

theorem astar_plan_goal_at_start:
  assumes "int (length (fst s0)) div 2 = total_pairs g"
  shows "astar_plan s0 g m = Returns (Some [])"
  unfolding astar_plan_def
  by (rule astar_loop_Done) (rule astar_first_step_goal [OF assms])

theorem astar_plan_goal_at_start_witness:
  "int (length (fst (([(0, 0), (0, 1), (1, 0), (1, 1)], []) :: state))) div 2 = total_pairs game_1221 \<and>
   astar_plan ([(0, 0), (0, 1), (1, 0), (1, 1)], []) game_1221 0 = Returns (Some [])"
proof -
  have h: "int (length (fst (([(0, 0), (0, 1), (1, 0), (1, 1)], []) :: state))) div 2
      = total_pairs game_1221"
    by code_simp
  show ?thesis
    by (intro conjI h astar_plan_goal_at_start [OF h])
qed

text \<open>
  Claim C4. The planner returns \<open>None\<close>, as a value, exactly when some pass of its loop
  finds the frontier empty, or pops a node that is not a goal with the expansion counter
  about to exceed \<open>max_expansions\<close>. With \<open>max_expansions = 0\<close> and an initial state that
  is not a goal it returns \<open>None\<close>.
\<close>

theorem astar_plan_failure:
  "(astar_plan s0 g m = Returns None \<longleftrightarrow>
      (\<exists>n vs e. astar_run g m n (astar_init s0 g, 0) = Next (vs, e) \<and>
         (frontier vs = [] \<or>
          (\<exists>node rest. heappop (frontier vs) = Some (node, rest) \<and>
             int (length (fst (node_state node))) div 2 \<noteq> total_pairs g \<and> e + 1 > m)))) \<and>
   (int (length (fst s0)) div 2 \<noteq> total_pairs g \<longrightarrow> astar_plan s0 g 0 = Returns None)"
proof (intro conjI impI)
  show "astar_plan s0 g m = Returns None \<longleftrightarrow>
      (\<exists>n vs e. astar_run g m n (astar_init s0 g, 0) = Next (vs, e) \<and>
         (frontier vs = [] \<or>
          (\<exists>node rest. heappop (frontier vs) = Some (node, rest) \<and>
             int (length (fst (node_state node))) div 2 \<noteq> total_pairs g \<and> e + 1 > m)))"
    unfolding astar_plan_def astar_loop_None_iff
    by (simp only: split_paired_Ex astar_step_None_iff)
next
  assume "int (length (fst s0)) div 2 \<noteq> total_pairs g"
  then show "astar_plan s0 g 0 = Returns None"
    unfolding astar_plan_def by (intro astar_loop_Done astar_first_step_budget)
qed

theorem astar_plan_failure_witness:
  "int (length (fst (snapshot game_1221))) div 2 \<noteq> total_pairs game_1221 \<and>
   astar_plan (snapshot game_1221) game_1221 0 = Returns None \<and>
   astar_plan (snapshot game_1221) game_1221 2 = Returns None \<and>
   astar_plan (snapshot game_1221) game_1221 3
     = Returns (Some [(''turn'', ((0, 0), (1, 1))), (''turn'', ((0, 1), (1, 0)))])"
proof -
  have h: "int (length (fst (snapshot game_1221))) div 2 \<noteq> total_pairs game_1221"
    by code_simp
  have a: "astar_plan (snapshot game_1221) game_1221 0 = Returns None"
    by (rule astar_plan_failure [THEN conjunct2, THEN mp, OF h])
  have b: "astar_plan (snapshot game_1221) game_1221 2 = Returns None"
    by code_simp
  have c: "astar_plan (snapshot game_1221) game_1221 3
     = Returns (Some [(''turn'', ((0, 0), (1, 1))), (''turn'', ((0, 1), (1, 0)))])"
    by code_simp
  show ?thesis
    by (intro conjI h a b c)
qed

subsection \<open>The order of the frontier\<close>

lemma heappop_Some:
  assumes "heappop heap = Some (n, rest)"
  shows "heap \<noteq> [] \<and> n = Min (set heap) \<and> rest = remove1 n heap"
  using assms by (auto simp: heappop_def min_list_Min split: if_splits)

lemma node_le_fields:
  assumes "(n :: node) \<le> x"
  shows "node_f n \<le> node_f x \<and>
         (node_f x = node_f n \<longrightarrow> node_g n \<le> node_g x \<and>
            (node_g x = node_g n \<longrightarrow> node_state n \<le> node_state x))"
proof -
  obtain f1 g1 s1 r1 where n: "n = (f1, g1, s1, r1)" by (cases n)
  obtain f2 g2 s2 r2 where x: "x = (f2, g2, s2, r2)" by (cases x)
  from assms show ?thesis
    unfolding n x node_f_def node_g_def node_state_def fst_conv snd_conv less_eq_prod_simp
    by auto
qed

lemma relax_frontier:
  "frontier (relax key gn tp tr vs) = frontier vs \<or>
   (\<exists>node. frontier (relax key gn tp tr vs) = frontier vs @ [node] \<and>
      node_f node = node_g node + heuristic_state (node_state node) tp)"
  by (cases tr)
    (auto simp: relax_def Let_def heappush_def node_f_def node_g_def node_state_def
      split: option.splits)

text \<open>
  Claim C9, as amended. Every node the planner pushes has \<open>f = g + h\<close>, and \<open>heappop\<close>
  takes out a least node in the tuple order of \<open>Node\<close>: its \<open>f\<close> is least; among the
  entries of that \<open>f\<close> its \<open>g\<close> is least; among those its state is least in tuple order.
  The order of insertion plays no part.
\<close>

theorem heappop_least_node:
  "(frontier (relax key gn tp tr vs) = frontier vs \<or>
    (\<exists>node. frontier (relax key gn tp tr vs) = frontier vs @ [node] \<and>
       node_f node = node_g node + heuristic_state (node_state node) tp)) \<and>
   (heappop heap = Some (n, rest) \<longrightarrow>
      n \<in> set heap \<and> mset heap = add_mset n (mset rest) \<and>
      (\<forall>x \<in> set heap. n \<le> x \<and> node_f n \<le> node_f x \<and>
         (node_f x = node_f n \<longrightarrow> node_g n \<le> node_g x \<and>
            (node_g x = node_g n \<longrightarrow> node_state n \<le> node_state x))))"
proof (rule conjI)
  show "frontier (relax key gn tp tr vs) = frontier vs \<or>
    (\<exists>node. frontier (relax key gn tp tr vs) = frontier vs @ [node] \<and>
       node_f node = node_g node + heuristic_state (node_state node) tp)"
    by (rule relax_frontier)
next
  show "heappop heap = Some (n, rest) \<longrightarrow>
      n \<in> set heap \<and> mset heap = add_mset n (mset rest) \<and>
      (\<forall>x \<in> set heap. n \<le> x \<and> node_f n \<le> node_f x \<and>
         (node_f x = node_f n \<longrightarrow> node_g n \<le> node_g x \<and>
            (node_g x = node_g n \<longrightarrow> node_state n \<le> node_state x)))"
  proof
    assume "heappop heap = Some (n, rest)"
    then have h: "heap \<noteq> []" "n = Min (set heap)" "rest = remove1 n heap"
      using heappop_Some by blast+
    from h(1,2) have mem: "n \<in> set heap"
      by simp
    from mem h(3) have ms: "mset heap = add_mset n (mset rest)"
      by simp
    have "n \<le> x \<and> node_f n \<le> node_f x \<and>
         (node_f x = node_f n \<longrightarrow> node_g n \<le> node_g x \<and>
            (node_g x = node_g n \<longrightarrow> node_state n \<le> node_state x))"
      if "x \<in> set heap" for x
    proof -
      from that h(2) have le: "n \<le> x"
        by simp
      with node_le_fields [OF le] show ?thesis
        by blast
    qed
    with mem ms show "n \<in> set heap \<and> mset heap = add_mset n (mset rest) \<and>
      (\<forall>x \<in> set heap. n \<le> x \<and> node_f n \<le> node_f x \<and>
         (node_f x = node_f n \<longrightarrow> node_g n \<le> node_g x \<and>
            (node_g x = node_g n \<longrightarrow> node_state n \<le> node_state x)))"
      by blast
  qed
qed

theorem heappop_least_node_witness:
  "heappop (frontier_after game_1221_seen 10 1 (snapshot game_1221_seen))
     = Some ((2, 1, ([(0, 0), (1, 1)], []), Some (([], [(1, [(0, 0)])]), (''turn'', ((1, 1), (0, 0))))),
             snd (the (heappop (frontier_after game_1221_seen 10 1 (snapshot game_1221_seen))))) \<and>
   (2, 1, ([(0, 1), (1, 0)], [(1, [(0, 0)])]), Some (([], [(1, [(0, 0)])]), (''turn'', ((0, 1), (1, 0)))))
     \<in> set (frontier_after game_1221_seen 10 1 (snapshot game_1221_seen)) \<and>
   ((2, 1, ([(0, 0), (1, 1)], []), Some (([], [(1, [(0, 0)])]), (''turn'', ((1, 1), (0, 0))))) :: node)
     \<le> (2, 1, ([(0, 1), (1, 0)], [(1, [(0, 0)])]), Some (([], [(1, [(0, 0)])]), (''turn'', ((0, 1), (1, 0)))))"
proof -
  let ?F = "frontier_after game_1221_seen 10 1 (snapshot game_1221_seen)"
  let ?A = "(2, 1, ([(0, 1), (1, 0)], [(1, [(0, 0)])]),
             Some (([], [(1, [(0, 0)])]), (''turn'', ((0, 1), (1, 0))))) :: node"
  let ?B = "(2, 1, ([(0, 0), (1, 1)], []),
             Some (([], [(1, [(0, 0)])]), (''turn'', ((1, 1), (0, 0))))) :: node"
  have h: "heappop ?F = Some (?B, snd (the (heappop ?F)))"
    by code_simp
  have a: "?A \<in> set ?F"
    by code_simp
  from heappop_least_node [of _ _ _ _ _ ?F ?B "snd (the (heappop ?F))", THEN conjunct2, THEN mp, OF h]
  have "\<forall>x \<in> set ?F. ?B \<le> x \<and> node_f ?B \<le> node_f x \<and>
         (node_f x = node_f ?B \<longrightarrow> node_g ?B \<le> node_g x \<and>
            (node_g x = node_g ?B \<longrightarrow> node_state ?B \<le> node_state x))"
    by (elim conjE)
  from this [THEN bspec, OF a] have le: "?B \<le> ?A"
    by (elim conjE)
  show ?thesis
    by (intro conjI h a le)
qed

text \<open>
  Claim C9 as stated fails. On the board \<open>[[1, 2], [2, 1]]\<close> with \<open>(0, 0)\<close> remembered, the
  first pass pushes six nodes. Two of them have the least \<open>f = 2\<close>: the one reached by
  turning \<open>(0, 1)\<close> and \<open>(1, 0)\<close>, pushed second, and the one reached by turning \<open>(1, 1)\<close>
  and \<open>(0, 0)\<close>, pushed last. The next pop takes the one pushed last, whose state is smaller
  in tuple order; first-in-first-out would take the other.
\<close>

theorem frontier_not_fifo_counterexample:
  "map node_f (frontier_after game_1221_seen 10 1 (snapshot game_1221_seen)) = [3, 2, 3, 3, 3, 2] \<and>
   fifo_pop (frontier_after game_1221_seen 10 1 (snapshot game_1221_seen))
     = Some (2, 1, ([(0, 1), (1, 0)], [(1, [(0, 0)])]),
             Some (([], [(1, [(0, 0)])]), (''turn'', ((0, 1), (1, 0))))) \<and>
   map_option fst (heappop (frontier_after game_1221_seen 10 1 (snapshot game_1221_seen)))
     = Some (2, 1, ([(0, 0), (1, 1)], []),
             Some (([], [(1, [(0, 0)])]), (''turn'', ((1, 1), (0, 0))))) \<and>
   map_option fst (heappop (frontier_after game_1221_seen 10 1 (snapshot game_1221_seen)))
     \<noteq> fifo_pop (frontier_after game_1221_seen 10 1 (snapshot game_1221_seen))"
  by code_simp

subsection \<open>The fallback policy\<close>

lemma all_positions_product: "all_positions g = List.product [0..<gsize g] [0..<gsize g]"
  by (simp add: all_positions_def product_concat_map)

lemma distinct_all_positions: "distinct (all_positions g)"
  by (simp add: all_positions_product distinct_product)

lemma length_all_positions: "length (all_positions g) = gsize g * gsize g"
  by (simp add: all_positions_product)

lemma all_positions_iff: "(r, c) \<in> set (all_positions g) \<longleftrightarrow> r < gsize g \<and> c < gsize g"
  by (simp add: all_positions_product)

lemma value_at_valid:
  assumes "wf_game g" and "p \<in> set (all_positions g)"
  shows "\<exists>v. value_at g p = Some v"
proof -
  obtain r c where p: "p = (r, c)" by (cases p)
  from assms(2) have rc: "r < gsize g" "c < gsize g"
    by (simp_all add: p all_positions_iff)
  from assms(1) have len: "length (board g) = gsize g"
    and rows: "\<forall>row \<in> set (board g). length row = gsize g"
    by (simp_all add: wf_game_def list_all_iff)
  from rc(1) len have "board g ! r \<in> set (board g)"
    by simp
  with rows have "length (board g ! r) = gsize g"
    by blast
  with rc len show ?thesis
    by (simp add: value_at_def p)
qed

lemma unfinished_has_unmatched:
  assumes "wf_game g" and "\<not> is_finished g"
  shows "filter (\<lambda>p. p \<notin> matched g) (all_positions g) \<noteq> []"
proof
  assume "filter (\<lambda>p. p \<notin> matched g) (all_positions g) = []"
  then have "set (all_positions g) \<subseteq> matched g"
    by (auto simp: filter_empty_conv)
  moreover from assms(1) have "matched g \<subseteq> set (all_positions g)"
    by (simp add: wf_game_def)
  ultimately have "matched g = set (all_positions g)"
    by blast
  then have "card (matched g) = gsize g * gsize g"
    using distinct_card [OF distinct_all_positions, of g] by (simp add: length_all_positions)
  with assms(1) have "is_finished g"
    by (simp add: is_finished_def wf_game_def)
  with assms(2) show False
    by contradiction
qed

lemma set_append_at:
  "(k, ps) \<in> set (append_at mp v p) \<Longrightarrow>
     (k, ps) \<in> set mp \<or> (k = v \<and> ps = [p]) \<or> (k = v \<and> (\<exists>l. (v, l) \<in> set mp \<and> ps = l @ [p]))"
proof (cases "map_of mp v")
  case None
  assume "(k, ps) \<in> set (append_at mp v p)"
  with None show ?thesis by (auto simp: append_at_def)
next
  case (Some l)
  assume "(k, ps) \<in> set (append_at mp v p)"
  with Some have "(k, ps) \<in> set (AList.update v (l @ [p]) mp)"
    by (simp add: append_at_def)
  with set_update_subset [of v "l @ [p]" mp] have "(k, ps) = (v, l @ [p]) \<or> (k, ps) \<in> set mp"
    by blast
  with map_of_SomeD [OF Some] show ?thesis by blast
qed

lemma seen_pairs_fold:
  assumes "distinct (map fst xs)"
    and "\<forall>k ps. (k, ps) \<in> set mp \<longrightarrow> distinct ps \<and> set ps \<inter> fst ` set xs = {} \<and> set ps \<subseteq> B"
    and "\<forall>p \<in> fst ` set xs. p \<notin> M \<longrightarrow> p \<in> B"
    and "(k, ps) \<in> set (fold (\<lambda>(p, val) mp. if p \<notin> M then append_at mp val p else mp) xs mp)"
  shows "distinct ps \<and> set ps \<subseteq> B"
  using assms
proof (induction xs arbitrary: mp)
  case Nil
  then show ?case by simp
next
  case (Cons x xs)
  obtain p val where x: "x = (p, val)" by (cases x)
  let ?mp = "if p \<notin> M then append_at mp val p else mp"
  have inv: "\<forall>k ps. (k, ps) \<in> set ?mp \<longrightarrow> distinct ps \<and> set ps \<inter> fst ` set xs = {} \<and> set ps \<subseteq> B"
  proof (intro allI impI)
    fix k' ps' assume mem: "(k', ps') \<in> set ?mp"
    show "distinct ps' \<and> set ps' \<inter> fst ` set xs = {} \<and> set ps' \<subseteq> B"
    proof (cases "p \<in> M")
      case True
      with mem Cons.prems(2) show ?thesis by (auto simp: x)
    next
      case False
      from Cons.prems(1) have pfresh: "p \<notin> fst ` set xs"
        by (simp add: x)
      from Cons.prems(3) False have pB: "p \<in> B"
        by (simp add: x)
      from mem False have "(k', ps') \<in> set (append_at mp val p)"
        by simp
      from set_append_at [OF this] show ?thesis
      proof (elim disjE conjE exE)
        assume "(k', ps') \<in> set mp"
        with Cons.prems(2) show ?thesis by (auto simp: x)
      next
        assume "ps' = [p]"
        with pfresh pB show ?thesis by simp
      next
        fix l assume l: "(val, l) \<in> set mp" and ps': "ps' = l @ [p]"
        from Cons.prems(2) l have "distinct l" "set l \<inter> fst ` set (x # xs) = {}" "set l \<subseteq> B"
          by blast+
        with pfresh pB show ?thesis
          unfolding ps' x by auto
      qed
    qed
  qed
  from Cons.prems(1) have d: "distinct (map fst xs)" by simp
  from Cons.prems(3) have b: "\<forall>p \<in> fst ` set xs. p \<notin> M \<longrightarrow> p \<in> B" by simp
  from Cons.prems(4) have
    "(k, ps) \<in> set (fold (\<lambda>(p, val) mp. if p \<notin> M then append_at mp val p else mp) xs ?mp)"
    by (simp add: x)
  from Cons.IH [OF d inv b this] show ?case .
qed

lemma seen_pairs_entries:
  assumes "wf_game g" and "(k, ps) \<in> set (seen_pairs g)"
  shows "distinct ps \<and> set ps \<subseteq> {p \<in> set (all_positions g). p \<notin> matched g}"
proof -
  from assms(1) have d: "distinct (map fst (seen g))"
    and v: "\<forall>p \<in> fst ` set (seen g). p \<in> set (all_positions g)"
    by (auto simp: wf_game_def list_all_iff)
  show ?thesis
    by (rule seen_pairs_fold [OF d _ _ assms(2) [unfolded seen_pairs_def]]) (use v in auto)
qed

lemma random_choice_mem: "xs \<noteq> [] \<Longrightarrow> \<exists>x \<in> set xs. random_choice r xs = Some x"
  by (simp add: random_choice_def)


lemma find_Some_mem: "find P xs = Some x \<Longrightarrow> P x \<and> x \<in> set xs"
  by (induction xs) (auto split: if_splits)

lemma only_one_left:
  assumes "distinct xs" and "xs \<noteq> []" and "filter (\<lambda>p. p \<noteq> a) xs = []"
  shows "xs = [a]"
proof -
  from assms(3) have all: "\<forall>x \<in> set xs. x = a"
    by (auto simp: filter_empty_conv)
  from assms(2) obtain x rest where xs: "xs = x # rest"
    by (cases xs) auto
  with all have "x = a" and "\<forall>y \<in> set rest. y = a"
    by simp_all
  with assms(1) xs have "rest = []"
    by (cases rest) auto
  with xs \<open>x = a\<close> show ?thesis
    by simp
qed

text \<open>
  Claim C8. On a well-formed live game that is not finished, \<open>greedy_policy\<close> returns,
  for every random draw, a \<open>"turn"\<close> of two board positions that are both unmatched; the
  two positions differ unless exactly one unmatched position is left, in which case the
  action repeats it.
\<close>

theorem greedy_policy_usable:
  assumes "wf_game g" and "\<not> is_finished g"
  shows "\<exists>p1 p2. greedy_policy g r1 r2 = Some (''turn'', (p1, p2)) \<and>
           p1 \<in> set (all_positions g) \<and> p2 \<in> set (all_positions g) \<and>
           p1 \<notin> matched g \<and> p2 \<notin> matched g \<and>
           (p1 = p2 \<longrightarrow> unmatched_positions g = [p1])"
proof (cases "find (\<lambda>(val, poses). length poses \<ge> 2) (seen_pairs g)")
  case (Some item)
  obtain val poses where item: "item = (val, poses)" by (cases item)
  from Some have len: "2 \<le> length poses" and mem: "(val, poses) \<in> set (seen_pairs g)"
    unfolding item by (auto dest: find_Some_mem)
  from seen_pairs_entries [OF assms(1) mem]
  have d: "distinct poses" and sub: "set poses \<subseteq> {p \<in> set (all_positions g). p \<notin> matched g}"
    by blast+
  from len have "0 < length poses" and "1 < length poses"
    by linarith+
  then have "poses ! 0 \<in> set poses" and "poses ! 1 \<in> set poses"
    using nth_mem [of 0 poses] nth_mem [of 1 poses] by blast+
  with sub have ok: "poses ! 0 \<in> set (all_positions g)" "poses ! 1 \<in> set (all_positions g)"
    "poses ! 0 \<notin> matched g" "poses ! 1 \<notin> matched g"
    by blast+
  from d \<open>0 < length poses\<close> \<open>1 < length poses\<close> have ne: "poses ! 0 \<noteq> poses ! 1"
    by (simp add: nth_eq_iff_index_eq)
  from Some have "greedy_policy g r1 r2 = Some (''turn'', (poses ! 0, poses ! 1))"
    by (simp add: greedy_policy_def item)
  with ok ne show ?thesis
    by blast
next
  case None
  let ?unmatched = "filter (\<lambda>p. \<not> is_matched g p) (all_positions g)"
  let ?unseen0 = "filter (\<lambda>p. p \<notin> set (map fst (seen g))) ?unmatched"
  let ?unseen = "if ?unseen0 = [] then ?unmatched else ?unseen0"
  have um: "?unmatched = unmatched_positions g"
    by (simp add: unmatched_positions_def is_matched_def)
  have ne: "?unmatched \<noteq> []"
    using unfinished_has_unmatched [OF assms] by (simp add: is_matched_def)
  then have "?unseen \<noteq> []"
    by simp
  from random_choice_mem [OF this, of r1] obtain p1 where
    p1: "p1 \<in> set ?unseen" and c1: "random_choice r1 ?unseen = Some p1"
    by blast
  from p1 have p1u: "p1 \<in> set ?unmatched"
    by (auto split: if_splits)
  then have p1ok: "p1 \<in> set (all_positions g)" "p1 \<notin> matched g"
    by (simp_all add: is_matched_def)
  from value_at_valid [OF assms(1) p1ok(1)] obtain v1 where v1: "value_at g p1 = Some v1"
    by blast
  let ?remaining = "filter (\<lambda>p. p \<noteq> p1) ?unmatched"
  have gp: "greedy_policy g r1 r2 =
      (case find (\<lambda>(p, val). val = v1 \<and> p \<noteq> p1 \<and> p \<notin> matched g) (seen g) of
         Some (p, val) \<Rightarrow> Some (''turn'', (p1, p))
       | None \<Rightarrow>
           if ?remaining = [] then Some (''turn'', (p1, p1))
           else (case random_choice r2 ?remaining of
                   None \<Rightarrow> None
                 | Some p2 \<Rightarrow> Some (''turn'', (p1, p2))))"
    using None c1 v1 unfolding greedy_policy_def Let_def by simp
  show ?thesis
  proof (cases "find (\<lambda>(p, val). val = v1 \<and> p \<noteq> p1 \<and> p \<notin> matched g) (seen g)")
    case (Some hit)
    obtain p val where hit: "hit = (p, val)" by (cases hit)
    from Some have "p \<noteq> p1" and "p \<notin> matched g" and "(p, val) \<in> set (seen g)"
      unfolding hit by (auto dest: find_Some_mem)
    moreover from this(3) assms(1) have "p \<in> set (all_positions g)"
      by (force simp: wf_game_def list_all_iff)
    moreover from Some have "greedy_policy g r1 r2 = Some (''turn'', (p1, p))"
      by (simp add: gp hit)
    ultimately show ?thesis
      using p1ok by blast
  next
    case None
    show ?thesis
    proof (cases "?remaining = []")
      case True
      have "distinct ?unmatched"
        by (simp add: distinct_all_positions)
      from only_one_left [OF this ne True] have "unmatched_positions g = [p1]"
        by (simp only: um)
      moreover from None True have "greedy_policy g r1 r2 = Some (''turn'', (p1, p1))"
        by (simp add: gp)
      ultimately show ?thesis
        using p1ok by blast
    next
      case False
      from random_choice_mem [OF this, of r2] obtain p2 where
        p2: "p2 \<in> set ?remaining" and c2: "random_choice r2 ?remaining = Some p2"
        by blast
      from p2 have "p2 \<noteq> p1" and "p2 \<in> set (all_positions g)" and "p2 \<notin> matched g"
        by (simp_all add: is_matched_def)
      moreover from None False c2 have "greedy_policy g r1 r2 = Some (''turn'', (p1, p2))"
        by (simp add: gp)
      ultimately show ?thesis
        using p1ok by blast
    qed
  qed
qed

theorem greedy_policy_usable_witness:
  "wf_game game_1221_seen \<and> \<not> is_finished game_1221_seen \<and>
   greedy_policy game_1221_seen 0 1 = Some (''turn'', ((0, 1), (1, 0))) \<and>
   (\<exists>p1 p2. greedy_policy game_1221_seen 0 1 = Some (''turn'', (p1, p2)) \<and>
           p1 \<in> set (all_positions game_1221_seen) \<and> p2 \<in> set (all_positions game_1221_seen) \<and>
           p1 \<notin> matched game_1221_seen \<and> p2 \<notin> matched game_1221_seen \<and>
           (p1 = p2 \<longrightarrow> unmatched_positions game_1221_seen = [p1]))"
proof -
  have h1: "wf_game game_1221_seen"
    by code_simp
  have h2: "\<not> is_finished game_1221_seen"
    by code_simp
  have e: "greedy_policy game_1221_seen 0 1 = Some (''turn'', ((0, 1), (1, 0)))"
    by code_simp
  show ?thesis
    by (intro conjI h1 h2 e greedy_policy_usable [OF h1 h2])
qed

subsection \<open>Replaying a plan\<close>

lemma snapshot_freeze: "snapshot g = freeze (matched g) (seen_pairs g)"
  by (simp add: snapshot_def freeze_def)

lemma state_to_key_freeze: "state_to_key (freeze A d) = freeze A d"
proof -
  have "sort (sorted_list_of_set A) = sorted_list_of_set A"
    by (simp add: sorted_sort_id)
  moreover have "sort (map (\<lambda>(val, pos_list). (val, sort pos_list))
                   (sort (map (\<lambda>(k, v). (k, sort v)) d)))
               = sort (map (\<lambda>(k, v). (k, sort v)) d)"
    by (simp only: sort_items_fix) (simp add: sorted_sort_id)
  ultimately show ?thesis
    unfolding freeze_def state_to_key_def prod.case by (simp only:)
qed

lemma seen_pairs_fold_src:
  assumes "\<forall>k ps. (k, ps) \<in> set mp \<longrightarrow> ps \<noteq> [] \<and> (\<forall>p \<in> set ps. (p, k) \<in> S)"
    and "set xs \<subseteq> S"
    and "(k, ps) \<in> set (fold (\<lambda>(p, val) mp. if p \<notin> M then append_at mp val p else mp) xs mp)"
  shows "ps \<noteq> [] \<and> (\<forall>p \<in> set ps. (p, k) \<in> S)"
  using assms
proof (induction xs arbitrary: mp)
  case Nil
  then show ?case by simp
next
  case (Cons x xs)
  obtain p val where x: "x = (p, val)" by (cases x)
  let ?mp = "if p \<notin> M then append_at mp val p else mp"
  from Cons.prems(2) have pS: "(p, val) \<in> S" and rest: "set xs \<subseteq> S"
    by (simp_all add: x)
  have inv: "\<forall>k ps. (k, ps) \<in> set ?mp \<longrightarrow> ps \<noteq> [] \<and> (\<forall>p \<in> set ps. (p, k) \<in> S)"
  proof (intro allI impI)
    fix k' ps' assume mem: "(k', ps') \<in> set ?mp"
    show "ps' \<noteq> [] \<and> (\<forall>p \<in> set ps'. (p, k') \<in> S)"
    proof (cases "p \<in> M")
      case True
      with mem Cons.prems(1) show ?thesis by simp
    next
      case False
      with mem have "(k', ps') \<in> set (append_at mp val p)"
        by simp
      from set_append_at [OF this] show ?thesis
      proof (elim disjE conjE exE)
        assume "(k', ps') \<in> set mp"
        with Cons.prems(1) show ?thesis by blast
      next
        assume "k' = val" and "ps' = [p]"
        with pS show ?thesis by simp
      next
        fix l assume "k' = val" and "(val, l) \<in> set mp" and "ps' = l @ [p]"
        with Cons.prems(1) pS show ?thesis by auto
      qed
    qed
  qed
  from Cons.prems(3) have
    "(k, ps) \<in> set (fold (\<lambda>(p, val) mp. if p \<notin> M then append_at mp val p else mp) xs ?mp)"
    by (simp add: x)
  from Cons.IH [OF inv rest this] show ?case .
qed

lemma finite_matched: "wf_game g \<Longrightarrow> finite (matched g)"
  by (auto simp: wf_game_def intro: finite_subset)

lemma snapshot_wf:
  assumes "wf_game g"
  shows "wf_state (snapshot g)"
  unfolding snapshot_freeze
proof (rule wf_state_freeze [OF finite_matched [OF assms]])
  show "wf_map (matched g) (seen_pairs g)"
    unfolding wf_map_iff
  proof (intro allI impI)
    fix v ps assume mem: "(v, ps) \<in> set (seen_pairs g)"
    from seen_pairs_entries [OF assms mem]
    have "distinct ps" and "\<forall>p \<in> set ps. p \<notin> matched g"
      by blast+
    moreover have "ps \<noteq> []"
      using seen_pairs_fold_src [of "[]" "set (seen g)" "seen g" v ps "matched g"] mem
      by (simp add: seen_pairs_def)
    ultimately show "ps \<noteq> [] \<and> distinct ps \<and> (\<forall>p \<in> set ps. p \<notin> matched g)"
      by blast
  qed
qed

lemma snapshot_true:
  assumes "seen_true g"
  shows "memory_true g (snapshot g)"
  unfolding snapshot_freeze
proof (rule memory_true_freeze)
  show "true_map g (seen_pairs g)"
    unfolding true_map_iff
  proof (intro allI impI ballI)
    fix v ps p assume mem: "(v, ps) \<in> set (seen_pairs g)" and p: "p \<in> set ps"
    have "\<forall>p \<in> set ps. (p, v) \<in> set (seen g)"
      using seen_pairs_fold_src [of "[]" "set (seen g)" "seen g" v ps "matched g"] mem
      by (simp add: seen_pairs_def)
    with p have "(p, v) \<in> set (seen g)"
      by blast
    with assms show "value_at g p = Some v"
      by (auto simp: seen_true_def list_all_iff)
  qed
qed

lemma snapshot_stands:
  assumes "wf_game g"
  shows "stands_at g g (snapshot g)"
  using finite_matched [OF assms] by (simp add: stands_at_def snapshot_freeze freeze_def)

text \<open>
  Claim C5. The search states the generator is given are the snapshot of a live game and
  the states it has produced itself. Every such state is well-formed, and so is every
  state the generator produces from it: no position is both matched and remembered, and
  every remembered position list is non-empty and free of duplicates.
\<close>

theorem successors_keep_wf_state:
  assumes "wf_game g" and "seen_true g" and "succ_path g (snapshot g) n s"
    and "successors_state s g = Some succs" and "(a, s', c) \<in> set succs"
  shows "wf_state s \<and> wf_state s'"
proof -
  from succ_path_invariants [OF assms(3) snapshot_wf [OF assms(1)] snapshot_true [OF assms(2)]]
  have wf: "wf_state s" and tr: "memory_true g s"
    by blast+
  from successor_invariants [OF wf tr assms(4,5)] wf show ?thesis
    by blast
qed

theorem successors_keep_wf_state_witness:
  "wf_game game_1221_seen \<and> seen_true game_1221_seen \<and>
   snapshot game_1221_seen = ([], [(1, [(0, 0)])]) \<and>
   succ_path game_1221_seen (snapshot game_1221_seen) 1
     ([], [(1, [(0, 0), (1, 1)]), (2, [(0, 1)])]) \<and>
   successors_state ([], [(1, [(0, 0), (1, 1)]), (2, [(0, 1)])]) game_1221_seen
     = Some [((''match'', ((0, 0), (1, 1))), ([(0, 0), (1, 1)], [(2, [(0, 1)])]), 1)] \<and>
   wf_state ([], [(1, [(0, 0), (1, 1)]), (2, [(0, 1)])]) \<and>
   wf_state ([(0, 0), (1, 1)], [(2, [(0, 1)])])"
proof -
  let ?g = game_1221_seen
  let ?s1 = "([], [(1, [(0, 0), (1, 1)]), (2, [(0, 1)])]) :: state"
  let ?s2 = "([(0, 0), (1, 1)], [(2, [(0, 1)])]) :: state"
  have h1: "wf_game ?g"
    by code_simp
  have h2: "seen_true ?g"
    by code_simp
  have sn: "snapshot ?g = ([], [(1, [(0, 0)])])"
    by code_simp
  have e1: "successors_state (snapshot ?g) ?g = Some (the (successors_state (snapshot ?g) ?g))"
    by code_simp
  have m1: "((''turn'', ((0, 1), (1, 1))), ?s1, 1) \<in> set (the (successors_state (snapshot ?g) ?g))"
    by code_simp
  have path: "succ_path ?g (snapshot ?g) 1 ?s1"
    using succ_path_step [OF e1 m1 succ_path_refl] by simp
  have e2: "successors_state ?s1 ?g = Some [((''match'', ((0, 0), (1, 1))), ?s2, 1)]"
    by code_simp
  have m2: "((''match'', ((0, 0), (1, 1))), ?s2, 1)
      \<in> set [((''match'', ((0, 0), (1, 1))), ?s2, 1 :: int)]"
    by simp
  note inst = successors_keep_wf_state [OF h1 h2 path e2 m2]
  show ?thesis
    by (intro conjI h1 h2 sn path e2 inst [THEN conjunct1] inst [THEN conjunct2])
qed

lemma value_at_board: "board G = board g \<Longrightarrow> value_at G p = value_at g p"
  unfolding value_at_def by (simp only:)

lemma apply_turn_hit:
  assumes "value_at G p1 = Some v" and "value_at G p2 = Some v" and "p1 \<noteq> p2"
  shows "\<exists>G'. apply_turn G p1 p2 = Some (G', True) \<and> board G' = board G \<and>
           total_pairs G' = total_pairs G \<and> matched G' = insert p2 (insert p1 (matched G))"
  using assms by (simp add: apply_turn_def Let_def)

lemma apply_turn_miss:
  assumes "value_at G p1 = Some v1" and "value_at G p2 = Some v2" and "v1 \<noteq> v2 \<or> p1 = p2"
  shows "\<exists>G'. apply_turn G p1 p2 = Some (G', False) \<and> board G' = board G \<and>
           total_pairs G' = total_pairs G \<and> matched G' = matched G"
  using assms by (auto simp: apply_turn_def Let_def)

lemma replay_single:
  "apply_turn G p1 p2 = Some (G', b) \<Longrightarrow> replay G [(t, (p1, p2))] = Some G'"
  by simp

lemma stands_at_freeze:
  assumes "board G' = board g" and "total_pairs G' = total_pairs g" and "matched G' = A"
    and "finite A"
  shows "stands_at g G' (freeze A d)"
  using assms by (simp add: stands_at_def freeze_def)

lemma edge_replay:
  assumes wf: "wf_state s" and tr: "memory_true g s"
    and succ: "successors_state s g = Some succs" and mem: "(a, s', c) \<in> set succs"
    and st: "stands_at g G s"
  shows "\<exists>G'. replay G [a] = Some G' \<and> stands_at g G' s'"
proof -
  obtain m sn where s: "s = (m, sn)" by (cases s)
  let ?ms = "set m" and ?sm = "dict_of_items sn"
  have wfm: "wf_map ?ms ?sm"
    using wf by (simp add: s wf_state_def wf_map_dict_of_items)
  have trm: "true_map g ?sm"
    using tr by (simp add: s memory_true_def true_map_dict_of_items)
  from st have bd: "board G = board g" and tp: "total_pairs G = total_pairs g"
    and mt: "matched G = ?ms"
    by (simp_all add: stands_at_def s)
  from succ [unfolded s] mem show ?thesis
  proof (cases rule: successors_cases)
    case (known item)
    from known(2) show ?thesis
    proof (cases rule: match_succ_cases)
      case (1 val poses p1 p2)
      let ?av = "filter (\<lambda>p. p \<notin> ?ms) poses"
      from known(1) 1(1) wfm have dp: "distinct poses"
        unfolding wf_map_iff by blast
      then have dav: "distinct ?av"
        by simp
      from 1(2) have i0: "0 < length ?av" and i1: "1 < length ?av"
        by linarith+
      from dav i0 i1 have ne: "p1 \<noteq> p2"
        unfolding 1(3,4) by (simp add: nth_eq_iff_index_eq)
      from nth_mem [OF i0] nth_mem [OF i1] have "p1 \<in> set poses" and "p2 \<in> set poses"
        unfolding 1(3,4) by simp_all
      with known(1) 1(1) trm have "value_at g p1 = Some val" and "value_at g p2 = Some val"
        unfolding true_map_iff by blast+
      then have "value_at G p1 = Some val" and "value_at G p2 = Some val"
        by (simp_all add: value_at_board [OF bd])
      from apply_turn_hit [OF this ne] obtain G' where
        at: "apply_turn G p1 p2 = Some (G', True)" and "board G' = board G"
        and "total_pairs G' = total_pairs G" and "matched G' = insert p2 (insert p1 (matched G))"
        by blast
      then have "stands_at g G' s'"
        using 1(5) bd tp mt by (simp add: stands_at_freeze)
      moreover from at 1(5) have "replay G [a] = Some G'"
        by simp
      ultimately show ?thesis
        by blast
    qed
  next
    case (explore c' d)
    from explore(4) show ?thesis
    proof (cases rule: turn_succ_cases)
      case (hit v)
      from hit(1,2) have "value_at G c' = Some v" and "value_at G d = Some v"
        by (simp_all add: value_at_board [OF bd])
      from apply_turn_hit [OF this hit(3)] obtain G' where
        at: "apply_turn G c' d = Some (G', True)" and "board G' = board G"
        and "total_pairs G' = total_pairs G" and "matched G' = insert d (insert c' (matched G))"
        by blast
      then have "stands_at g G' s'"
        using hit(4) bd tp mt by (simp add: stands_at_freeze)
      moreover from at hit(4) have "replay G [a] = Some G'"
        by simp
      ultimately show ?thesis
        by blast
    next
      case (miss v_c v_d)
      from miss(1,2) have "value_at G c' = Some v_c" and "value_at G d = Some v_d"
        by (simp_all add: value_at_board [OF bd])
      from apply_turn_miss [OF this miss(3)] obtain G' where
        at: "apply_turn G c' d = Some (G', False)" and "board G' = board G"
        and "total_pairs G' = total_pairs G" and "matched G' = matched G"
        by blast
      then have "stands_at g G' s'"
        using miss(4) bd tp mt by (simp add: stands_at_freeze)
      moreover from at miss(4) have "replay G [a] = Some G'"
        by simp
      ultimately show ?thesis
        by blast
    qed
  qed
qed

lemma replay_Cons:
  "replay G [a] = Some G' \<Longrightarrow> replay G (a # as) = replay G' as"
  by (cases a) (auto split: option.splits prod.splits)

lemma plan_path_replay:
  assumes "plan_path g s as s'" and "wf_state s" and "memory_true g s" and "stands_at g G s"
  shows "\<exists>G'. replay G as = Some G' \<and> stands_at g G' s'"
  using assms
proof (induction arbitrary: G rule: plan_path.induct)
  case (plan_path_Nil g s)
  then show ?case by simp
next
  case (plan_path_Cons s g succs a s' c as s'')
  from edge_replay [OF plan_path_Cons.prems(1,2) plan_path_Cons.hyps(1,2) plan_path_Cons.prems(3)]
  obtain G1 where r1: "replay G [a] = Some G1" and st1: "stands_at g G1 s'"
    by blast
  from successor_invariants [OF plan_path_Cons.prems(1,2) plan_path_Cons.hyps(1,2)]
  have "wf_state s'" and "memory_true g s'"
    by blast+
  from plan_path_Cons.IH [OF this st1] obtain G' where
    "replay G1 as = Some G'" and "stands_at g G' s''"
    by blast
  with replay_Cons [OF r1, of as] show ?case
    by auto
qed

lemma stands_at_finished:
  assumes "stands_at g G s" and "int (length (fst s)) div 2 = total_pairs g"
  shows "is_finished G"
proof -
  from assms(1) have "card (matched G) = length (fst s)"
    by (simp add: stands_at_def distinct_card)
  with assms show ?thesis
    by (simp add: is_finished_def stands_at_def)
qed

lemma plan_path_snoc:
  assumes "plan_path g s as s'" and "successors_state s' g = Some succs"
    and "(a, s'', c) \<in> set succs"
  shows "plan_path g s (as @ [a]) s''"
  using assms
proof (induction rule: plan_path.induct)
  case (plan_path_Nil g s)
  then show ?case
    using plan_path.plan_path_Cons [OF _ _ plan_path.plan_path_Nil] by fastforce
next
  case (plan_path_Cons s g succs' a' s1 c' as s2)
  from plan_path_Cons.IH [OF plan_path_Cons.prems]
  have "plan_path g s1 (as @ [a]) s''" .
  from plan_path.plan_path_Cons [OF plan_path_Cons.hyps(1,2) this]
  show ?case by simp
qed

subsection \<open>The invariant of the planner's loop\<close>

lemma successor_canonical:
  assumes "successors_state s g = Some succs" and "(a, s', c) \<in> set succs"
  shows "state_to_key s' = s'"
proof -
  obtain m sn where s: "s = (m, sn)" by (cases s)
  from assms(1) [unfolded s] assms(2) show ?thesis
  proof (cases rule: successors_cases)
    case (known item)
    from known(2) show ?thesis
      by (cases rule: match_succ_cases) (simp add: state_to_key_freeze)
  next
    case (explore c' d)
    from explore(4) show ?thesis
      by (cases rule: turn_succ_cases) (simp_all add: state_to_key_freeze)
  qed
qed

lemma astar_inv_init:
  assumes "state_to_key s0 = s0"
  shows "astar_inv g s0 (astar_init s0 g)"
  using assms
  by (simp add: astar_inv_def astar_init_def Let_def heappush_def node_state_def node_g_def)

lemma astar_inv_frontier:
  assumes "astar_inv g s0 vs" and "set rest \<subseteq> set (frontier vs)"
  shows "astar_inv g s0 (vs\<lparr>frontier := rest\<rparr>)"
proof -
  have "came_from (vs\<lparr>frontier := rest\<rparr>) = came_from vs"
    and "gscore (vs\<lparr>frontier := rest\<rparr>) = gscore vs"
    and "frontier (vs\<lparr>frontier := rest\<rparr>) = rest"
    by simp_all
  with assms show ?thesis
    unfolding astar_inv_def by (simp only:) blast
qed

lemma relax_unfold:
  "relax key gn tp (a, s', c) vs =
     (if (case gscore vs (state_to_key s') of None \<Rightarrow> True | Some old \<Rightarrow> gn + c < old)
      then vs\<lparr>gscore := (gscore vs)(state_to_key s' \<mapsto> gn + c),
              frontier := frontier vs @ [(gn + c + heuristic_state s' tp, gn + c, s', Some (key, a))],
              came_from := (came_from vs)(state_to_key s' \<mapsto> Some (key, a))\<rparr>
      else vs)"
  by (simp add: relax_def Let_def heappush_def)

lemma relax_inv:
  assumes inv: "astar_inv g s0 vs"
    and key: "came_from vs key \<noteq> None" "gscore vs key = Some gk" "0 \<le> gk" "gk \<le> gn"
    and succ: "successors_state key g = Some succs" and tr: "tr \<in> set succs"
  shows "astar_inv g s0 (relax key gn tp tr vs) \<and>
         came_from (relax key gn tp tr vs) key \<noteq> None \<and>
         gscore (relax key gn tp tr vs) key = Some gk"
proof -
  obtain a s' c where t: "tr = (a, s', c)" by (cases tr)
  from successor_cost [OF succ tr [unfolded t]] have c: "c = 1" .
  from successor_canonical [OF succ tr [unfolded t]] have can: "state_to_key s' = s'" .
  show ?thesis
  proof (cases "case gscore vs s' of None \<Rightarrow> True | Some old \<Rightarrow> gn + 1 < old")
    case False
    then have "relax key gn tp tr vs = vs"
      by (simp add: t relax_unfold c can)
    with inv key show ?thesis
      by simp
  next
    case True
    let ?vs = "vs\<lparr>gscore := (gscore vs)(s' \<mapsto> gn + 1),
              frontier := frontier vs @ [(gn + 1 + heuristic_state s' tp, gn + 1, s', Some (key, a))],
              came_from := (came_from vs)(s' \<mapsto> Some (key, a))\<rparr>"
    from True have r: "relax key gn tp tr vs = ?vs"
      by (simp add: t relax_unfold c can)
    from inv have i1: "came_from vs s0 = Some None" and i2: "gscore vs s0 = Some 0"
      and i3: "\<And>k. came_from vs k = Some None \<Longrightarrow> k = s0"
      and i4: "\<And>k p a. came_from vs k = Some (Some (p, a)) \<Longrightarrow>
        (\<exists>succs c. successors_state p g = Some succs \<and> (a, k, c) \<in> set succs) \<and>
        came_from vs p \<noteq> None \<and>
        (\<exists>gp gk. gscore vs p = Some gp \<and> gscore vs k = Some gk \<and> 0 \<le> gp \<and> gp < gk)"
      and i5: "\<And>n. n \<in> set (frontier vs) \<Longrightarrow>
        state_to_key (node_state n) = node_state n \<and> came_from vs (node_state n) \<noteq> None \<and>
        (\<exists>gk. gscore vs (node_state n) = Some gk \<and> 0 \<le> gk \<and> gk \<le> node_g n)"
      unfolding astar_inv_def by blast+
    from True i2 key(3,4) have ne0: "s' \<noteq> s0"
      by auto
    from True key(2,4) have nek: "s' \<noteq> key"
      by auto
    have lower: "gn + 1 < old" if "gscore vs s' = Some old" for old
      using True that by simp
    have j1: "came_from ?vs s0 = Some None" and j2: "gscore ?vs s0 = Some 0"
      using i1 i2 ne0 by simp_all
    have j3: "k = s0" if "came_from ?vs k = Some None" for k
      using that i3 [of k] by (cases "k = s'") simp_all
    have j4: "(\<exists>succs c. successors_state p g = Some succs \<and> (b, k, c) \<in> set succs) \<and>
        came_from ?vs p \<noteq> None \<and>
        (\<exists>gp gk. gscore ?vs p = Some gp \<and> gscore ?vs k = Some gk \<and> 0 \<le> gp \<and> gp < gk)"
      if h: "came_from ?vs k = Some (Some (p, b))" for k p b
    proof (cases "k = s'")
      case True
      with h have "p = key" and "b = a"
        by simp_all
      with True succ tr t key nek show ?thesis
        by auto
    next
      case False
      with h have old: "came_from vs k = Some (Some (p, b))"
        by simp
      from i4 [OF old] obtain gp gk' where
        e: "\<exists>succs c. successors_state p g = Some succs \<and> (b, k, c) \<in> set succs"
        and cp: "came_from vs p \<noteq> None"
        and gs: "gscore vs p = Some gp" "gscore vs k = Some gk'" "0 \<le> gp" "gp < gk'"
        by blast
      show ?thesis
      proof (cases "p = s'")
        case True
        with gs lower [of gp] key(3,4) False e show ?thesis
          by auto
      next
        case pf: False
        with gs cp False e show ?thesis
          by auto
      qed
    qed
    have j5: "state_to_key (node_state n) = node_state n \<and> came_from ?vs (node_state n) \<noteq> None \<and>
        (\<exists>gk. gscore ?vs (node_state n) = Some gk \<and> 0 \<le> gk \<and> gk \<le> node_g n)"
      if h: "n \<in> set (frontier ?vs)" for n
    proof (cases "n \<in> set (frontier vs)")
      case True
      from i5 [OF True] obtain gk' where
        a1: "state_to_key (node_state n) = node_state n" and a2: "came_from vs (node_state n) \<noteq> None"
        and a3: "gscore vs (node_state n) = Some gk'" "0 \<le> gk'" "gk' \<le> node_g n"
        by blast
      show ?thesis
      proof (cases "node_state n = s'")
        case True
        with a1 a3 lower [of gk'] key(3,4) show ?thesis
          by auto
      next
        case False
        with a1 a2 a3 show ?thesis
          by auto
      qed
    next
      case False
      with h have "n = (gn + 1 + heuristic_state s' tp, gn + 1, s', Some (key, a))"
        by simp
      with can key(3,4) show ?thesis
        by (simp add: node_state_def node_g_def)
    qed
    have "astar_inv g s0 ?vs"
      unfolding astar_inv_def using j1 j2 j3 j4 j5 by blast
    moreover have "came_from ?vs key \<noteq> None" and "gscore ?vs key = Some gk"
      using key nek by simp_all
    ultimately show ?thesis
      unfolding r by blast
  qed
qed

lemma fold_relax_inv:
  assumes "astar_inv g s0 vs"
    and "came_from vs key \<noteq> None" and "gscore vs key = Some gk" and "0 \<le> gk" and "gk \<le> gn"
    and "successors_state key g = Some succs" and "set trs \<subseteq> set succs"
  shows "astar_inv g s0 (fold (relax key gn tp) trs vs)"
  using assms
proof (induction trs arbitrary: vs)
  case Nil
  then show ?case by simp
next
  case (Cons tr trs)
  from Cons.prems(7) have tr: "tr \<in> set succs" and rest: "set trs \<subseteq> set succs"
    by simp_all
  from relax_inv [OF Cons.prems(1-6) tr, of tp]
  have "astar_inv g s0 (relax key gn tp tr vs)"
    and "came_from (relax key gn tp tr vs) key \<noteq> None"
    and "gscore (relax key gn tp tr vs) key = Some gk"
    by blast+
  from Cons.IH [OF this Cons.prems(4,5,6) rest] show ?case
    by simp
qed

lemma astar_step_Next:
  assumes "astar_step g m (vs, e) = Next y"
  shows "\<exists>node rest succs. heappop (frontier vs) = Some (node, rest) \<and>
           successors_state (node_state node) g = Some succs \<and>
           y = (fold (relax (state_to_key (node_state node)) (node_g node) (total_pairs g)) succs
                  (vs\<lparr>frontier := rest\<rparr>), e + 1)"
proof (cases "frontier vs = []")
  case True
  with assms show ?thesis
    by (simp add: astar_step_def)
next
  case False
  then obtain node rest where pop: "heappop (frontier vs) = Some (node, rest)"
    by (simp add: heappop_def)
  with False assms show ?thesis
    by (auto simp: astar_step_def Let_def split: if_splits option.splits sum.splits)
qed

lemma astar_step_plan:
  assumes "astar_step g m (vs, e) = Done (Returns (Some plan))"
  shows "\<exists>node rest path. heappop (frontier vs) = Some (node, rest) \<and>
           int (length (fst (node_state node))) div 2 = total_pairs g \<and>
           reconstruct (came_from vs) (state_to_key (node_state node)) [] = Some (Inr path) \<and>
           plan = rev path"
proof (cases "frontier vs = []")
  case True
  with assms show ?thesis
    by (simp add: astar_step_def)
next
  case False
  then obtain node rest where pop: "heappop (frontier vs) = Some (node, rest)"
    by (simp add: heappop_def)
  with False assms show ?thesis
    by (auto simp: astar_step_def Let_def split: if_splits option.splits sum.splits)
qed

lemma astar_step_inv:
  assumes inv: "astar_inv g s0 vs" and step: "astar_step g m (vs, e) = Next (vs', e')"
  shows "astar_inv g s0 vs'"
proof -
  from astar_step_Next [OF step] obtain node rest succs where
    pop: "heappop (frontier vs) = Some (node, rest)"
    and succ: "successors_state (node_state node) g = Some succs"
    and vs': "vs' = fold (relax (state_to_key (node_state node)) (node_g node) (total_pairs g)) succs
                  (vs\<lparr>frontier := rest\<rparr>)"
    by auto
  from heappop_Some [OF pop] have ne: "frontier vs \<noteq> []" and n: "node = Min (set (frontier vs))"
    and rest: "rest = remove1 node (frontier vs)"
    by blast+
  from ne n have mem: "node \<in> set (frontier vs)"
    by simp
  from rest have sub: "set rest \<subseteq> set (frontier vs)"
    by (simp add: set_remove1_subset)
  from inv mem obtain gk where
    can: "state_to_key (node_state node) = node_state node"
    and cf: "came_from vs (node_state node) \<noteq> None"
    and gs: "gscore vs (node_state node) = Some gk" "0 \<le> gk" "gk \<le> node_g node"
    unfolding astar_inv_def by blast
  let ?vs = "vs\<lparr>frontier := rest\<rparr>"
  have "astar_inv g s0 ?vs"
    by (rule astar_inv_frontier [OF inv sub])
  moreover have "came_from ?vs (node_state node) \<noteq> None"
    and "gscore ?vs (node_state node) = Some gk"
    using cf gs by simp_all
  ultimately show ?thesis
    unfolding vs' can using gs(2,3) succ
    by (rule fold_relax_inv) simp
qed

lemma astar_run_inv:
  assumes "astar_inv g s0 (fst x)" and "astar_run g m n x = Next y"
  shows "astar_inv g s0 (fst y)"
  using assms
proof (induction n arbitrary: x)
  case 0
  then show ?case by simp
next
  case (Suc n)
  from Suc.prems(2) obtain x' where
    step: "astar_step g m x = Next x'" and run: "astar_run g m n x' = Next y"
    by (auto split: step.splits)
  from astar_step_inv [OF Suc.prems(1), of m "snd x" "fst x'" "snd x'"] step
  have "astar_inv g s0 (fst x')"
    by simp
  from Suc.IH [OF this run] show ?case .
qed

lemma reconstruct_path:
  assumes inv: "astar_inv g s0 vs"
    and "gscore vs k = Some gk" and "0 \<le> gk" and "came_from vs k \<noteq> None"
  shows "\<exists>as. reconstruct (came_from vs) k acc = Some (Inr (acc @ as)) \<and> plan_path g s0 (rev as) k"
  using assms(2-4)
proof (induction "nat gk" arbitrary: k gk acc rule: less_induct)
  case less
  from less.prems(3) obtain entry where e: "came_from vs k = Some entry"
    by blast
  show ?case
  proof (cases entry)
    case None
    with e inv have "k = s0"
      unfolding astar_inv_def by blast
    moreover from e None have "reconstruct (came_from vs) k acc = Some (Inr acc)"
      by (subst reconstruct.simps) simp
    ultimately have "reconstruct (came_from vs) k acc = Some (Inr (acc @ [])) \<and>
        plan_path g s0 (rev []) k"
      by (simp add: plan_path_Nil)
    then show ?thesis
      by blast
  next
    case (Some pa)
    obtain p a where pa: "pa = (p, a)" by (cases pa)
    from e Some pa have cf: "came_from vs k = Some (Some (p, a))"
      by simp
    with inv obtain succs c gp gk' where
      edge: "successors_state p g = Some succs" "(a, k, c) \<in> set succs"
      and cp: "came_from vs p \<noteq> None"
      and gs: "gscore vs p = Some gp" "gscore vs k = Some gk'" "0 \<le> gp" "gp < gk'"
      unfolding astar_inv_def by blast
    from gs(2) less.prems(1) have "gk' = gk"
      by simp
    with gs(3,4) have "nat gp < nat gk"
      by simp
    from less.hyps [OF this gs(1) gs(3) cp, of "acc @ [a]"] obtain as where
      r: "reconstruct (came_from vs) p (acc @ [a]) = Some (Inr ((acc @ [a]) @ as))"
      and pp: "plan_path g s0 (rev as) p"
      by blast
    from cf r have "reconstruct (came_from vs) k acc = Some (Inr (acc @ (a # as)))"
      by (subst reconstruct.simps) simp
    moreover from plan_path_snoc [OF pp edge] have "plan_path g s0 (rev (a # as)) k"
      by simp
    ultimately show ?thesis
      by blast
  qed
qed

text \<open>
  Claim C1. When the planner, called on the state snapshotted from a well-formed live game
  whose memory holds true card values, returns a plan, replaying the plan on that game
  with \<open>apply_turn\<close> raises no error and ends in a finished game.
\<close>

theorem plan_replay_finishes:
  assumes "wf_game g" and "seen_true g"
    and "astar_plan (snapshot g) g m = Returns (Some plan)"
  shows "\<exists>g'. replay g plan = Some g' \<and> is_finished g'"
proof -
  let ?s0 = "snapshot g"
  have can: "state_to_key ?s0 = ?s0"
    by (simp add: snapshot_freeze state_to_key_freeze)
  from astar_loop_exit [of g m "(astar_init ?s0 g, 0)"] assms(3) obtain n y where
    run: "astar_run g m n (astar_init ?s0 g, 0) = Next y"
    and stop: "astar_step g m y = Done (Returns (Some plan))"
    unfolding astar_plan_def by auto
  obtain vs e where y: "y = (vs, e)" by (cases y)
  from astar_run_inv [OF _ run] astar_inv_init [OF can, of g] have inv: "astar_inv g ?s0 vs"
    by (simp add: y)
  from astar_step_plan [OF stop [unfolded y]] obtain node rest path where
    pop: "heappop (frontier vs) = Some (node, rest)"
    and goal: "int (length (fst (node_state node))) div 2 = total_pairs g"
    and rec: "reconstruct (came_from vs) (state_to_key (node_state node)) [] = Some (Inr path)"
    and plan: "plan = rev path"
    by blast
  from heappop_Some [OF pop] have "node \<in> set (frontier vs)"
    by simp
  with inv obtain gk where
    nc: "state_to_key (node_state node) = node_state node"
    and cf: "came_from vs (node_state node) \<noteq> None"
    and gs: "gscore vs (node_state node) = Some gk" "0 \<le> gk"
    unfolding astar_inv_def by blast
  from reconstruct_path [OF inv gs cf, of "[]"] rec
  have "plan_path g ?s0 plan (node_state node)"
    by (auto simp: nc plan)
  from plan_path_replay [OF this snapshot_wf [OF assms(1)] snapshot_true [OF assms(2)]
      snapshot_stands [OF assms(1)]]
  obtain g' where "replay g plan = Some g'" and "stands_at g g' (node_state node)"
    by blast
  with stands_at_finished [OF this(2) goal] show ?thesis
    by blast
qed

theorem plan_replay_finishes_witness:
  "wf_game game_1221_seen \<and> seen_true game_1221_seen \<and>
   astar_plan (snapshot game_1221_seen) game_1221_seen 100
     = Returns (Some [(''turn'', ((1, 1), (0, 0))), (''turn'', ((0, 1), (1, 0)))]) \<and>
   (\<exists>g'. replay game_1221_seen [(''turn'', ((1, 1), (0, 0))), (''turn'', ((0, 1), (1, 0)))] = Some g'
      \<and> is_finished g') \<and>
   map_option matched
     (replay game_1221_seen [(''turn'', ((1, 1), (0, 0))), (''turn'', ((0, 1), (1, 0)))])
     = Some {(0, 0), (0, 1), (1, 0), (1, 1)}"
proof -
  have h1: "wf_game game_1221_seen"
    by code_simp
  have h2: "seen_true game_1221_seen"
    by code_simp
  have h3: "astar_plan (snapshot game_1221_seen) game_1221_seen 100
     = Returns (Some [(''turn'', ((1, 1), (0, 0))), (''turn'', ((0, 1), (1, 0)))])"
    by code_simp
  have h4: "map_option matched
     (replay game_1221_seen [(''turn'', ((1, 1), (0, 0))), (''turn'', ((0, 1), (1, 0)))])
     = Some {(0, 0), (0, 1), (1, 0), (1, 1)}"
    by code_simp
  show ?thesis
    by (intro conjI h1 h2 h3 h4 plan_replay_finishes [OF h1 h2 h3])
qed

subsection \<open>Play keeps a live game well-formed\<close>

lemma value_at_Some_valid:
  assumes "wf_game g" and "value_at g p = Some v"
  shows "p \<in> set (all_positions g)"
proof -
  obtain r c where p: "p = (r, c)" by (cases p)
  from assms(2) have r: "r < length (board g)" and c: "c < length (board g ! r)"
    by (auto simp: value_at_def p split: if_splits)
  from assms(1) have len: "length (board g) = gsize g"
    and rows: "\<forall>row \<in> set (board g). length row = gsize g"
    by (simp_all add: wf_game_def list_all_iff)
  from r have "board g ! r \<in> set (board g)"
    by simp
  with rows c have "c < gsize g"
    by auto
  with r len show ?thesis
    by (simp add: p all_positions_iff)
qed

lemma set_delete_subset: "set (AList.delete k al) \<subseteq> set al"
  by (auto simp: AList.delete_eq)

lemma apply_turn_keeps_wf:
  assumes wf: "wf_game g" and tr: "seen_true g" and at: "apply_turn g p1 p2 = Some (g', b)"
  shows "wf_game g' \<and> seen_true g'"
proof -
  from at obtain v1 v2 where v1: "value_at g p1 = Some v1" and v2: "value_at g p2 = Some v2"
    by (auto simp: apply_turn_def split: option.splits)
  let ?s1 = "if p1 \<notin> matched g then AList.update p1 v1 (seen g) else seen g"
  let ?s2 = "if p2 \<notin> matched g then AList.update p2 v2 ?s1 else ?s1"
  from value_at_Some_valid [OF wf v1] value_at_Some_valid [OF wf v2]
  have ok: "p1 \<in> set (all_positions g)" "p2 \<in> set (all_positions g)"
    by simp_all
  from wf have keys: "fst ` set (seen g) \<subseteq> set (all_positions g)"
    and dist: "distinct (map fst (seen g))"
    and msub: "matched g \<subseteq> set (all_positions g)"
    by (auto simp: wf_game_def list_all_iff)
  from tr have vals: "\<forall>(p, v) \<in> set (seen g). value_at g p = Some v"
    by (simp add: seen_true_def list_all_iff)
  have s2sub: "set ?s2 \<subseteq> insert (p2, v2) (insert (p1, v1) (set (seen g)))"
    using set_update_subset [of p1 v1 "seen g"] set_update_subset [of p2 v2 ?s1]
    by (auto split: if_splits)
  have s2dist: "distinct (map fst ?s2)"
    using dist by (simp add: distinct_update)
  from at v1 v2 have g': "g' = (if v1 = v2 \<and> p1 \<noteq> p2
      then g\<lparr>moves := moves g + 1, seen := AList.delete p2 (AList.delete p1 ?s2),
             matched := insert p2 (insert p1 (matched g))\<rparr>
      else g\<lparr>moves := moves g + 1, seen := ?s2\<rparr>)"
    by (auto simp: apply_turn_def Let_def split: if_splits)
  have seen': "set (seen g') \<subseteq> set ?s2" and dist': "distinct (map fst (seen g'))"
    and bd: "board g' = board g" "gsize g' = gsize g" "total_pairs g' = total_pairs g"
    and m': "matched g' \<subseteq> insert p2 (insert p1 (matched g))"
    using set_delete_subset [of p2 "AList.delete p1 ?s2"] set_delete_subset [of p1 ?s2] s2dist
    unfolding g' by (auto simp: distinct_delete split: if_splits)
  have ap: "all_positions g' = all_positions g"
    by (simp add: all_positions_def bd)
  from seen' s2sub have sub: "set (seen g') \<subseteq> insert (p2, v2) (insert (p1, v1) (set (seen g)))"
    by blast
  have "fst ` set (seen g') \<subseteq> fst ` insert (p2, v2) (insert (p1, v1) (set (seen g)))"
    using sub by (rule image_mono)
  moreover have "fst ` insert (p2, v2) (insert (p1, v1) (set (seen g))) \<subseteq> set (all_positions g)"
    using keys ok by simp
  ultimately have "fst ` set (seen g') \<subseteq> set (all_positions g)"
    by (rule subset_trans)
  with wf dist' bd m' msub ok have "wf_game g'"
    by (auto simp: wf_game_def list_all_iff ap)
  moreover have "\<forall>(p, v) \<in> set (seen g'). value_at g' p = Some v"
    using sub vals v1 v2 by (auto simp: value_at_board [OF bd(1)])
  then have "seen_true g'"
    by (simp add: seen_true_def list_all_iff)
  ultimately show ?thesis
    by blast
qed

end
